theory Spec2Isabelle
  imports Complex_Main
begin

section \<open>Numbers: float64 arithmetic\<close>

text \<open>
  Prices and quantities are Go \<^verbatim>\<open>float64\<close> values.  A finite float64 is a real number, and
  every arithmetic operation of the source returns the exact result rounded to the nearest
  float64, ties going to the even significand.  \<open>rnd\<close> is that rounding: 53 significant
  bits, the smallest exponent \<open>-1022\<close> (below it the spacing stays \<open>2 ^ -1074\<close>).  Overflow
  to an infinity and NaN are outside the model: a result of magnitude \<open>2 ^ 1024\<close> or more is
  kept as the rounded real.
\<close>

definition pow2 :: "int \<Rightarrow> real" where
  "pow2 e = (if 0 \<le> e then 2 ^ nat e else 1 / 2 ^ nat (- e))"

function expo_up :: "real \<Rightarrow> int \<Rightarrow> int" where
  "expo_up a e = (if e < 1023 \<and> pow2 (e + 1) \<le> a then expo_up a (e + 1) else e)"
  by pat_completeness auto
termination
  by (relation "measure (\<lambda>(a, e). nat (1023 - e))") auto

function expo_down :: "real \<Rightarrow> int \<Rightarrow> int" where
  "expo_down a e = (if - 1022 < e \<and> a < pow2 e then expo_down a (e - 1) else e)"
  by pat_completeness auto
termination
  by (relation "measure (\<lambda>(a, e). nat (e + 1022))") auto

declare expo_up.simps [simp del] expo_down.simps [simp del]

definition expo :: "real \<Rightarrow> int" where
  \<comment> \<open>the exponent \<open>e\<close> with \<open>2 ^ e \<le> a < 2 ^ (e + 1)\<close>, kept within \<open>-1022 .. 1023\<close>\<close>
  "expo a = (if 1 \<le> a then expo_up a 0 else expo_down a 0)"

definition round_even :: "real \<Rightarrow> int" where
  "round_even q =
     (let n = \<lfloor>q\<rfloor>; r = q - of_int n
      in if r < 1 / 2 then n else if 1 / 2 < r then n + 1
         else if even n then n else n + 1)"

definition rnd :: "real \<Rightarrow> real" where
  "rnd x =
     (if x = 0 then 0
      else let ulp = pow2 (expo \<bar>x\<bar> - 52)
           in sgn x * of_int (round_even (\<bar>x\<bar> / ulp)) * ulp)"


definition fadd :: "real \<Rightarrow> real \<Rightarrow> real" where
  "fadd x y = rnd (x + y)"

definition fsub :: "real \<Rightarrow> real \<Rightarrow> real" where
  "fsub x y = rnd (x - y)"

definition fdiv :: "real \<Rightarrow> real \<Rightarrow> real" where
  "fdiv x y = rnd (x / y)"

section \<open>Data model\<close>

text \<open>
  Orders and limits live on the heap and are reached through pointers; the book shares
  them freely, so the memory is explicit: \<open>orderAt\<close> and \<open>limitAt\<close> map an address to
  the object stored there, \<open>nextOrder\<close> and \<open>nextLimit\<close> are the next free addresses,
  and a pointer is an \<open>addr option\<close> (\<open>None\<close> is \<^verbatim>\<open>nil\<close>).  The record \<open>OrderBook\<close> holds
  the five fields of the struct and, with them, this memory; what an address holds before
  it is allocated does not matter.

  \<^verbatim>\<open>uuid.New()\<close> is modelled by a counter: the n-th order ever created gets identifier
  \<open>n\<close>, which is also its address.  The field \<^verbatim>\<open>timestamp\<close> is written once and never
  read; it is left out.  A \<^verbatim>\<open>Limit\<close> owns exactly one \<^verbatim>\<open>OrderQueue\<close>, created with it and
  never replaced, so \<open>rear\<close> and \<open>front\<close> are fields of the limit.  The book's field
  \<^verbatim>\<open>Price\<close> is \<open>lastPrice\<close>; \<^verbatim>\<open>id\<close> and \<^verbatim>\<open>next\<close> are \<open>uid\<close> and \<open>nxt\<close>.
\<close>

type_synonym addr = nat
type_synonym uuid = nat

record Order =
  uid :: uuid
  qty :: real
  nxt :: "addr option"

record Limit =
  Price :: real
  Volume :: real
  rear :: "addr option"
  front :: "addr option"

record OrderBook =
  BuyLimits :: "addr list"
  SellLimits :: "addr list"
  buyLimitsMap :: "real \<rightharpoonup> addr"
  sellLimitsMap :: "real \<rightharpoonup> addr"
  lastPrice :: real
  orderAt :: "addr \<Rightarrow> Order"
  limitAt :: "addr \<Rightarrow> Limit"
  nextOrder :: addr
  nextLimit :: addr

text \<open>
  The source reports failures as \<^verbatim>\<open>errors.New\<close> with a message; the kinds below name
  them as the specification does.  A nil dereference or an index out of range is a panic.
\<close>

datatype error =
    NotReady                \<comment> \<open>order-book as 0 buy or sell limits\<close>
  | InvalidPrice            \<comment> \<open>can't place order if Price <= 0\<close>
  | InvalidQuantity         \<comment> \<open>can't place order if quantity <= 0; market order qty <= 0\<close>
  | CrossesBook             \<comment> \<open>can't place a buy (sell) limit order higher (lower) than midPrice\<close>
  | NotFound                \<comment> \<open>no order having this id in this limit\<close>
  | InsufficientLiquidity   \<comment> \<open>can't execute market order : order qty > total Volume\<close>

datatype 'a outcome = Returned 'a | Panicked

section \<open>Orders, queues and limits\<close>

definition newOrder :: "real \<Rightarrow> OrderBook \<Rightarrow> addr \<times> OrderBook" where
  "newOrder q s =
     (nextOrder s,
      s\<lparr>orderAt := (orderAt s)(nextOrder s := \<lparr>uid = nextOrder s, qty = q, nxt = None\<rparr>),
        nextOrder := Suc (nextOrder s)\<rparr>)"

definition newLimit :: "real \<Rightarrow> OrderBook \<Rightarrow> addr \<times> OrderBook" where
  "newLimit p s =
     (nextLimit s,
      s\<lparr>limitAt := (limitAt s)(nextLimit s := \<lparr>Price = p, Volume = 0, rear = None, front = None\<rparr>),
        nextLimit := Suc (nextLimit s)\<rparr>)"

definition updLimit :: "addr \<Rightarrow> (Limit \<Rightarrow> Limit) \<Rightarrow> OrderBook \<Rightarrow> OrderBook" where
  "updLimit l f s = s\<lparr>limitAt := (limitAt s)(l := f (limitAt s l))\<rparr>"

definition updOrder :: "addr \<Rightarrow> (Order \<Rightarrow> Order) \<Rightarrow> OrderBook \<Rightarrow> OrderBook" where
  "updOrder a f s = s\<lparr>orderAt := (orderAt s)(a := f (orderAt s a))\<rparr>"

definition addOrder :: "addr \<Rightarrow> addr \<Rightarrow> OrderBook \<Rightarrow> OrderBook" where
  "addOrder l o' s =
     (let s1 = (case rear (limitAt s l) of
                  Some r \<Rightarrow>
                    (let s' = updOrder r (\<lambda>x. x\<lparr>nxt := Some o'\<rparr>) s
                     in updLimit l (\<lambda>x. x\<lparr>rear := nxt (orderAt s' r)\<rparr>) s')
                | None \<Rightarrow>
                    (let s' = updLimit l (\<lambda>x. x\<lparr>rear := Some o'\<rparr>) s
                     in updLimit l (\<lambda>x. x\<lparr>front := rear (limitAt s' l)\<rparr>) s'))
      in updLimit l (\<lambda>x. x\<lparr>Volume := fadd (Volume x) (qty (orderAt s1 o'))\<rparr>) s1)"

text \<open>
  The scan of \<^verbatim>\<open>deleteOrder\<close> follows \<^verbatim>\<open>next\<close> until it is nil; on a cyclic chain it would
  not return, which is the value \<open>None\<close> here.
\<close>

partial_function (option) deleteOrder_scan ::
  "addr \<Rightarrow> uuid \<Rightarrow> addr \<Rightarrow> OrderBook \<Rightarrow> (error option \<times> OrderBook) option" where
  "deleteOrder_scan l i temp s =
     (case nxt (orderAt s temp) of
        None \<Rightarrow> Some (Some NotFound, s)
      | Some n \<Rightarrow>
          if uid (orderAt s n) = i
          then Some (None,
                 updOrder temp (\<lambda>x. x\<lparr>nxt := nxt (orderAt s n)\<rparr>)
                   (updLimit l (\<lambda>x. x\<lparr>Volume := fsub (Volume x) (qty (orderAt s n))\<rparr>) s))
          else deleteOrder_scan l i n s)"

definition deleteOrder ::
  "addr option \<Rightarrow> uuid \<Rightarrow> OrderBook \<Rightarrow> (error option outcome \<times> OrderBook) option" where
  "deleteOrder lp i s =
     (case lp of
        None \<Rightarrow> Some (Panicked, s)
      | Some l \<Rightarrow>
          (case front (limitAt s l) of
             None \<Rightarrow> Some (Panicked, s)
           | Some f \<Rightarrow>
               if uid (orderAt s f) = i
               then Some (Returned None,
                      updLimit l (\<lambda>x. x\<lparr>front := nxt (orderAt s f)\<rparr>)
                        (updLimit l (\<lambda>x. x\<lparr>Volume := fsub (Volume x) (qty (orderAt s f))\<rparr>) s))
               else map_option (\<lambda>(e, s'). (Returned e, s')) (deleteOrder_scan l i f s)))"

section \<open>The order book\<close>

definition New :: OrderBook where
  "New = \<lparr>BuyLimits = [], SellLimits = [], buyLimitsMap = Map.empty,
          sellLimitsMap = Map.empty, lastPrice = 0,
          orderAt = (\<lambda>_. \<lparr>uid = 0, qty = 0, nxt = None\<rparr>),
          limitAt = (\<lambda>_. \<lparr>Price = 0, Volume = 0, rear = None, front = None\<rparr>),
          nextOrder = 0, nextLimit = 0\<rparr>"

definition limitsOf :: "bool \<Rightarrow> OrderBook \<Rightarrow> addr list" where
  "limitsOf buyLimit s = (if buyLimit then BuyLimits s else SellLimits s)"

definition mapOf :: "bool \<Rightarrow> OrderBook \<Rightarrow> (real \<rightharpoonup> addr)" where
  "mapOf buyLimit s = (if buyLimit then buyLimitsMap s else sellLimitsMap s)"

text \<open>
  \<^verbatim>\<open>sort.Sort\<close> with \<^verbatim>\<open>byHighestPrice\<close> or \<^verbatim>\<open>byLowestPrice\<close>: the insertion sort that Go
  runs on a slice of at most 12 elements, each element moving left while it is \<^verbatim>\<open>Less\<close>
  than its left neighbour.  On a longer slice Go's sort is not stable: limits of distinct
  prices come out in the same order, limits of equal price (a side initialised more than
  once) may not.
\<close>

definition less_limit :: "bool \<Rightarrow> OrderBook \<Rightarrow> addr \<Rightarrow> addr \<Rightarrow> bool" where
  "less_limit buyLimit s a b =
     (if buyLimit then Price (limitAt s a) > Price (limitAt s b)
      else Price (limitAt s a) < Price (limitAt s b))"

fun insert_left :: "('a \<Rightarrow> 'a \<Rightarrow> bool) \<Rightarrow> 'a \<Rightarrow> 'a list \<Rightarrow> 'a list" where
  \<comment> \<open>the sorted prefix is held reversed: its last element first\<close>
  "insert_left lt x [] = [x]"
| "insert_left lt x (y # ys) = (if lt x y then y # insert_left lt x ys else x # y # ys)"

definition sort_Sort :: "('a \<Rightarrow> 'a \<Rightarrow> bool) \<Rightarrow> 'a list \<Rightarrow> 'a list" where
  "sort_Sort lt xs = rev (foldl (\<lambda>acc x. insert_left lt x acc) [] xs)"

definition setLimits :: "bool \<Rightarrow> addr list \<Rightarrow> OrderBook \<Rightarrow> OrderBook" where
  "setLimits buyLimit xs s = (if buyLimit then s\<lparr>BuyLimits := xs\<rparr> else s\<lparr>SellLimits := xs\<rparr>)"

definition setMap :: "bool \<Rightarrow> (real \<rightharpoonup> addr) \<Rightarrow> OrderBook \<Rightarrow> OrderBook" where
  "setMap buyLimit m s = (if buyLimit then s\<lparr>buyLimitsMap := m\<rparr> else s\<lparr>sellLimitsMap := m\<rparr>)"

definition addLimit :: "bool \<Rightarrow> addr \<Rightarrow> OrderBook \<Rightarrow> OrderBook" where
  "addLimit buyLimit l s =
     (let s1 = setMap buyLimit ((mapOf buyLimit s)(Price (limitAt s l) \<mapsto> l)) s;
          s2 = setLimits buyLimit (limitsOf buyLimit s1 @ [l]) s1
      in setLimits buyLimit (sort_Sort (less_limit buyLimit s2) (limitsOf buyLimit s2)) s2)"

definition canDeleteLimit :: "bool \<Rightarrow> OrderBook \<Rightarrow> bool" where
  "canDeleteLimit buyLimit s = (length (limitsOf buyLimit s) > 1)"

text \<open>
  \<^verbatim>\<open>deleteLimit\<close> overwrites slot \<open>pos\<close> with the last element, drops the last slot and
  sorts; an index outside the slice panics before anything is written.
\<close>

definition deleteLimit :: "bool \<Rightarrow> nat \<Rightarrow> real \<Rightarrow> OrderBook \<Rightarrow> OrderBook option" where
  "deleteLimit buyLimit pos p s =
     (let xs = limitsOf buyLimit s
      in if pos < length xs
         then (let s1 = setLimits buyLimit (butlast (xs[pos := last xs])) s;
                   s2 = setMap buyLimit ((mapOf buyLimit s1)(p := None)) s1
               in Some (setLimits buyLimit
                          (sort_Sort (less_limit buyLimit s2) (limitsOf buyLimit s2)) s2))
         else None)"

definition getMidPrice :: "OrderBook \<Rightarrow> error + real" where
  "getMidPrice s =
     (case (BuyLimits s, SellLimits s) of
        (b # _, a # _) \<Rightarrow> Inr (fdiv (fadd (Price (limitAt s b)) (Price (limitAt s a))) 2)
      | _ \<Rightarrow> Inl NotReady)"

definition getSpread :: "OrderBook \<Rightarrow> real" where
  "getSpread s =
     (case (BuyLimits s, SellLimits s) of
        (b # _, a # _) \<Rightarrow> fsub (Price (limitAt s a)) (Price (limitAt s b))
      | _ \<Rightarrow> 0)"

definition getTotalVolume :: "bool \<Rightarrow> OrderBook \<Rightarrow> real" where
  "getTotalVolume buyLimits s =
     foldl (\<lambda>totalVol l. fadd totalVol (Volume (limitAt s l))) 0 (limitsOf buyLimits s)"

definition Init :: "real \<Rightarrow> OrderBook \<Rightarrow> OrderBook" where
  "Init midPrice s =
     (let (l, s1) = newLimit midPrice s;
          (o', s2) = newOrder 0 s1;
          s3 = addOrder l o' s2;
          s4 = addLimit True l s3
      in addLimit False l s4)"

definition Reset :: "OrderBook \<Rightarrow> OrderBook" where
  "Reset s = s\<lparr>BuyLimits := [], SellLimits := [], buyLimitsMap := Map.empty,
              sellLimitsMap := Map.empty, lastPrice := 0\<rparr>"

definition GetData :: "OrderBook \<Rightarrow> addr list \<times> addr list" where
  "GetData s = (BuyLimits s, SellLimits s)"


text \<open>
  \<^verbatim>\<open>PlaceLimitOrder\<close> creates the order, and with it the identifier it returns, before it
  validates anything.  Its body after the checks is two blocks, given here as two
  definitions: \<open>rest_order\<close> puts the order into the limit at its price, creating and adding
  the limit when the index has none (the branches for the two sides are the same code);
  \<open>cleanup_top\<close> is the final \<^verbatim>\<open>if\<close>/\<^verbatim>\<open>else if\<close> that deletes an empty top limit.
\<close>

definition rest_order :: "bool \<Rightarrow> addr \<Rightarrow> real \<Rightarrow> OrderBook \<Rightarrow> OrderBook" where
  "rest_order buyOrder order P s =
     (case mapOf buyOrder s P of
        None \<Rightarrow>
          (let (limit, s') = newLimit P s
           in addLimit buyOrder limit (addOrder limit order s'))
      | Some l \<Rightarrow> addOrder l order s)"

definition cleanup_top :: "OrderBook \<Rightarrow> unit outcome \<times> OrderBook" where
  "cleanup_top s =
     (if canDeleteLimit True s \<and> Volume (limitAt s (BuyLimits s ! 0)) = 0
      then (case deleteLimit True 0 (Price (limitAt s (BuyLimits s ! 0))) s of
              None \<Rightarrow> (Panicked, s)
            | Some s' \<Rightarrow> (Returned (), s'))
      else if canDeleteLimit False s \<and> Volume (limitAt s (SellLimits s ! 0)) = 0
      then (case deleteLimit False 0 (Price (limitAt s (SellLimits s ! 0))) s of
              None \<Rightarrow> (Panicked, s)
            | Some s' \<Rightarrow> (Returned (), s'))
      else (Returned (), s))"

definition PlaceLimitOrder ::
  "bool \<Rightarrow> real \<Rightarrow> real \<Rightarrow> OrderBook \<Rightarrow> (uuid \<times> error option) outcome \<times> OrderBook" where
  "PlaceLimitOrder buyOrder P q s =
     (let (order, s0) = newOrder q s;
          i = uid (orderAt s0 order)
      in case getMidPrice s0 of
           Inl err \<Rightarrow> (Returned (i, Some err), s0)
         | Inr midPrice \<Rightarrow>
             if P \<le> 0 then (Returned (i, Some InvalidPrice), s0)
             else if q \<le> 0 then (Returned (i, Some InvalidQuantity), s0)
             else if buyOrder \<and> P > midPrice then (Returned (i, Some CrossesBook), s0)
             else if \<not> buyOrder \<and> P < midPrice then (Returned (i, Some CrossesBook), s0)
             else (case cleanup_top (rest_order buyOrder order P s0) of
                     (Panicked, s1) \<Rightarrow> (Panicked, s1)
                   | (Returned _, s1) \<Rightarrow> (Returned (i, None), s1)))"

text \<open>
  The \<^verbatim>\<open>range\<close> loop of \<^verbatim>\<open>CancelLimitOrder\<close> runs over the slice as it was when the loop
  started: \<open>arr\<close> is what its slots hold now.  \<^verbatim>\<open>deleteLimit\<close> rewrites the slots of the
  shortened slice and leaves the others as they are.
\<close>

fun range_delete ::
  "bool \<Rightarrow> real \<Rightarrow> nat list \<Rightarrow> addr list \<Rightarrow> OrderBook \<Rightarrow> unit outcome \<times> OrderBook" where
  "range_delete b P [] arr s = (Returned (), s)"
| "range_delete b P (i # is) arr s =
     (if Price (limitAt s (arr ! i)) = P
      then (case deleteLimit b i P s of
              None \<Rightarrow> (Panicked, s)
            | Some s' \<Rightarrow>
                range_delete b P is
                  (limitsOf b s' @ drop (length (limitsOf b s')) arr) s')
      else range_delete b P is arr s)"

definition CancelLimitOrder ::
  "uuid \<Rightarrow> real \<Rightarrow> OrderBook \<Rightarrow> (error option outcome \<times> OrderBook) option" where
  "CancelLimitOrder i P s =
     (case getMidPrice s of
        Inl err \<Rightarrow> Some (Returned (Some err), s)
      | Inr midPrice \<Rightarrow>
          (let b = (P < midPrice)
           in case deleteOrder (mapOf b s P) i s of
                None \<Rightarrow> None
              | Some (Panicked, s1) \<Rightarrow> Some (Panicked, s1)
              | Some (Returned (Some err), s1) \<Rightarrow> Some (Returned (Some err), s1)
              | Some (Returned None, s1) \<Rightarrow>
                  (case mapOf b s1 P of
                     None \<Rightarrow> if canDeleteLimit b s1 then Some (Panicked, s1)
                             else Some (Returned None, s1)
                   | Some l \<Rightarrow>
                       if canDeleteLimit b s1 \<and> Volume (limitAt s1 l) = 0
                       then (case range_delete b P [0 ..< length (limitsOf b s1)]
                                    (limitsOf b s1) s1 of
                               (Panicked, s2) \<Rightarrow> Some (Panicked, s2)
                             | (Returned _, s2) \<Rightarrow> Some (Returned None, s2))
                       else Some (Returned None, s1))))"

text \<open>
  \<^verbatim>\<open>PlaceMarketOrder\<close>: \<open>b\<close> is the side that is swept (\<open>True\<close> for \<^verbatim>\<open>BuyLimits\<close>), the two
  branches of the source being the same code on either side.  First loop: whole limits.
\<close>

function sweep_limits :: "bool \<Rightarrow> real \<Rightarrow> OrderBook \<Rightarrow> real outcome \<times> OrderBook" where
  "sweep_limits b q s =
     (case limitsOf b s of
        [] \<Rightarrow> (Returned q, s)
      | l # _ \<Rightarrow>
          if q \<ge> Volume (limitAt s l)
          then (let q' = fsub q (Volume (limitAt s l));
                    s1 = s\<lparr>lastPrice := Price (limitAt s l)\<rparr>
                in case deleteLimit b 0 (Price (limitAt s l)) s1 of
                     None \<Rightarrow> (Panicked, s1)
                   | Some s2 \<Rightarrow> sweep_limits b q' s2)
          else (Returned q, s))"
  by pat_completeness auto

termination
proof (relation "measure (\<lambda>(b, q, s). length (limitsOf b s))", simp, goal_cases)
  case (1 b q s l ls q' s1 s2)
  have ins: "length (insert_left lt x ys) = Suc (length ys)" for lt :: "addr \<Rightarrow> addr \<Rightarrow> bool" and x ys
    by (induction ys) simp_all
  have fld: "length (foldl (\<lambda>acc x. insert_left lt x acc) acc xs) = length acc + length xs"
    for lt :: "addr \<Rightarrow> addr \<Rightarrow> bool" and acc xs
    by (induction xs arbitrary: acc) (simp_all add: ins)
  from 1 have "length (limitsOf b s2) < length (limitsOf b s1)"
    by (auto simp: deleteLimit_def Let_def limitsOf_def setLimits_def setMap_def
          sort_Sort_def fld split: if_splits)
  moreover from 1 have "limitsOf b s1 = limitsOf b s"
    by (cases b) (simp_all add: limitsOf_def)
  ultimately show ?case by simp
qed

declare sweep_limits.simps [simp del]

text \<open>
  Second loop: front orders of the best limit.  It stops on the list of orders only; on a
  cyclic chain of orders it would not return (\<open>None\<close>).  A nil \<^verbatim>\<open>front\<close> panics.
\<close>

partial_function (option) sweep_orders ::
  "bool \<Rightarrow> real \<Rightarrow> OrderBook \<Rightarrow> (real outcome \<times> OrderBook) option" where
  "sweep_orders b q s =
     (case limitsOf b s of
        [] \<Rightarrow> Some (Returned q, s)
      | l # _ \<Rightarrow>
          (case front (limitAt s l) of
             None \<Rightarrow> Some (Panicked, s)
           | Some f \<Rightarrow>
               if q \<ge> qty (orderAt s f)
               then sweep_orders b (fsub q (qty (orderAt s f)))
                      (updLimit l (\<lambda>x. x\<lparr>front := nxt (orderAt s f)\<rparr>)
                        (updLimit l (\<lambda>x. x\<lparr>Volume := fsub (Volume x) (qty (orderAt s f))\<rparr>)
                          (s\<lparr>lastPrice := Price (limitAt s l)\<rparr>)))
               else Some (Returned q, s)))"

definition fill_partial :: "bool \<Rightarrow> real \<Rightarrow> OrderBook \<Rightarrow> unit outcome \<times> OrderBook" where
  "fill_partial b q s =
     (if q \<noteq> 0
      then (case limitsOf b s of
              [] \<Rightarrow> (Panicked, s)
            | l # _ \<Rightarrow>
                (let s1 = s\<lparr>lastPrice := Price (limitAt s l)\<rparr>
                 in case front (limitAt s1 l) of
                      None \<Rightarrow> (Panicked, s1)
                    | Some f \<Rightarrow>
                        (Returned (),
                         updLimit l (\<lambda>x. x\<lparr>Volume := fsub (Volume x) q\<rparr>)
                           (updOrder f (\<lambda>x. x\<lparr>qty := fsub (qty x) q\<rparr>) s1))))
      else (Returned (), s))"

definition PlaceMarketOrder ::
  "bool \<Rightarrow> real \<Rightarrow> OrderBook \<Rightarrow> (error option outcome \<times> OrderBook) option" where
  "PlaceMarketOrder buyOrder q s =
     (if q \<le> 0 then Some (Returned (Some InvalidQuantity), s)
      else if q \<ge> getTotalVolume (\<not> buyOrder) s
      then Some (Returned (Some InsufficientLiquidity), s)
      else (case sweep_limits (\<not> buyOrder) q s of
              (Panicked, s1) \<Rightarrow> Some (Panicked, s1)
            | (Returned q1, s1) \<Rightarrow>
                (case sweep_orders (\<not> buyOrder) q1 s1 of
                   None \<Rightarrow> None
                 | Some (Panicked, s2) \<Rightarrow> Some (Panicked, s2)
                 | Some (Returned q2, s2) \<Rightarrow>
                     (case fill_partial (\<not> buyOrder) q2 s2 of
                        (Panicked, s3) \<Rightarrow> Some (Panicked, s3)
                      | (Returned _, s3) \<Rightarrow> Some (Returned None, s3)))))"


text \<open>
  \<^verbatim>\<open>getOrders\<close> walks a queue from \<^verbatim>\<open>front\<close> along \<^verbatim>\<open>next\<close>; \<open>queue_from\<close> is that walk,
  returning the orders met, and \<open>getOrders\<close> their quantities (the source formats them
  into a string).  \<open>levels\<close> is what \<^verbatim>\<open>String\<close> shows of one side: price, volume and
  orders of each limit, in the order of the slice.
\<close>

partial_function (option) queue_from :: "addr option \<Rightarrow> OrderBook \<Rightarrow> addr list option" where
  "queue_from temp s =
     (case temp of
        None \<Rightarrow> Some []
      | Some a \<Rightarrow> Option.bind (queue_from (nxt (orderAt s a)) s) (\<lambda>r. Some (a # r)))"

definition getOrders :: "addr \<Rightarrow> OrderBook \<Rightarrow> real list option" where
  "getOrders l s = map_option (map (\<lambda>a. qty (orderAt s a))) (queue_from (front (limitAt s l)) s)"

definition levels :: "bool \<Rightarrow> OrderBook \<Rightarrow> (real \<times> real \<times> real list option) list" where
  "levels buyLimits s =
     map (\<lambda>l. (Price (limitAt s l), Volume (limitAt s l), getOrders l s)) (limitsOf buyLimits s)"

section \<open>First in, first out\<close>

text \<open>
  The orders of a queue as a list: \<open>chain nx p as\<close> says that following \<open>nx\<close> from the
  pointer \<open>p\<close> visits exactly \<open>as\<close> and then reaches nil.  \<open>queue_from\<close> returns a list
  exactly when there is such a chain.
\<close>

fun chain :: "(addr \<Rightarrow> addr option) \<Rightarrow> addr option \<Rightarrow> addr list \<Rightarrow> bool" where
  "chain nx p [] = (p = None)"
| "chain nx p (a # as) = (p = Some a \<and> chain nx (nx a) as)"

definition nexts :: "OrderBook \<Rightarrow> addr \<Rightarrow> addr option" where
  "nexts s = (\<lambda>a. nxt (orderAt s a))"

lemma chain_unique: "chain nx p as \<Longrightarrow> chain nx p bs \<Longrightarrow> as = bs"
proof (induction as arbitrary: p bs)
  case Nil
  then show ?case by (cases bs) auto
next
  case (Cons a as)
  then show ?case by (cases bs) auto
qed

lemma chain_suffix: "chain nx p (xs @ a # ys) \<Longrightarrow> chain nx (Some a) (a # ys)"
  by (induction xs arbitrary: p) auto

lemma queue_from_chain:
  assumes "queue_from p s = Some as"
  shows "chain (nexts s) p as"
  by (rule queue_from.raw_induct[where P = "\<lambda>p s r. chain (nexts s) p r", OF _ assms])
     (auto simp: nexts_def split: option.splits Option.bind_splits)

lemma chain_queue_from: "chain (nexts s) p as \<Longrightarrow> queue_from p s = Some as"
proof (induction as arbitrary: p)
  case Nil
  then show ?case by (simp add: queue_from.simps)
next
  case (Cons a as)
  then have "queue_from (nxt (orderAt s a)) s = Some as" by (simp add: nexts_def)
  with Cons.prems show ?case by (subst queue_from.simps) simp
qed


text \<open>
  A market order only consumes: it writes no \<^verbatim>\<open>next\<close> field, it adds no limit to the side
  it sweeps, and the \<^verbatim>\<open>front\<close> of a limit only moves forward along its own chain.
\<close>

definition ahead :: "(addr \<Rightarrow> addr option) \<Rightarrow> addr option \<Rightarrow> addr option \<Rightarrow> bool" where
  "ahead nx p p' \<longleftrightarrow> (\<forall>as. chain nx p' as \<longrightarrow> (\<exists>pre. chain nx p (pre @ as)))"

definition consumes :: "bool \<Rightarrow> OrderBook \<Rightarrow> OrderBook \<Rightarrow> bool" where
  "consumes b s s' \<longleftrightarrow>
     nexts s' = nexts s \<and> set (limitsOf b s') \<subseteq> set (limitsOf b s)
     \<and> (\<forall>l. ahead (nexts s) (front (limitAt s l)) (front (limitAt s' l)))"

lemma ahead_refl: "ahead nx p p"
  unfolding ahead_def by (metis append_Nil)

lemma ahead_trans: "ahead nx p p' \<Longrightarrow> ahead nx p' p'' \<Longrightarrow> ahead nx p p''"
  unfolding ahead_def by (metis append.assoc)

lemma ahead_step: "ahead nx (Some f) (nx f)"
  unfolding ahead_def
proof (intro allI impI)
  fix as assume "chain nx (nx f) as"
  then have "chain nx (Some f) ([f] @ as)" by simp
  then show "\<exists>pre. chain nx (Some f) (pre @ as)" by blast
qed

lemma consumes_refl: "consumes b s s"
  by (simp add: consumes_def ahead_refl)

lemma consumes_trans: "consumes b s s' \<Longrightarrow> consumes b s' s'' \<Longrightarrow> consumes b s s''"
  unfolding consumes_def by (auto intro: ahead_trans)

lemma set_insert_left: "set (insert_left lt x ys) = insert x (set ys)"
  by (induction ys) auto

lemma set_foldl_insert_left:
  "set (foldl (\<lambda>acc x. insert_left lt x acc) acc xs) = set acc \<union> set xs"
  by (induction xs arbitrary: acc) (auto simp: set_insert_left)

lemma set_sort_Sort: "set (sort_Sort lt xs) = set xs"
  by (simp add: sort_Sort_def set_foldl_insert_left)

lemma length_insert_left: "length (insert_left lt x ys) = Suc (length ys)"
  by (induction ys) simp_all

lemma length_foldl_insert_left:
  "length (foldl (\<lambda>acc x. insert_left lt x acc) acc xs) = length acc + length xs"
  by (induction xs arbitrary: acc) (simp_all add: length_insert_left)

lemma length_sort_Sort: "length (sort_Sort lt xs) = length xs"
  by (simp add: sort_Sort_def length_foldl_insert_left)

lemma set_swap_out: "pos < length xs \<Longrightarrow> set (butlast (xs[pos := last xs])) \<subseteq> set xs"
proof -
  assume "pos < length xs"
  then have "xs \<noteq> []" by auto
  have "set (butlast (xs[pos := last xs])) \<subseteq> set (xs[pos := last xs])"
    by (meson in_set_butlastD subsetI)
  also have "\<dots> \<subseteq> insert (last xs) (set xs)"
    by (rule set_update_subset_insert)
  also have "\<dots> = set xs"
    using \<open>xs \<noteq> []\<close> by (simp add: insert_absorb)
  finally show ?thesis .
qed

lemma deleteLimit_heap:
  assumes "deleteLimit b pos p s = Some s'"
  shows "orderAt s' = orderAt s" "limitAt s' = limitAt s" "nextOrder s' = nextOrder s"
    "set (limitsOf b s') \<subseteq> set (limitsOf b s)"
    "length (limitsOf b s') = length (limitsOf b s) - 1"
    "limitsOf (\<not> b) s' = limitsOf (\<not> b) s"
  using assms set_swap_out[of pos "limitsOf b s"]
  by (auto simp: deleteLimit_def Let_def limitsOf_def setLimits_def setMap_def mapOf_def
        set_sort_Sort length_sort_Sort split: if_splits)

lemma deleteLimit_consumes: "deleteLimit b pos p s = Some s' \<Longrightarrow> consumes b s s'"
  by (simp add: consumes_def nexts_def deleteLimit_heap ahead_refl)

lemma lastPrice_consumes: "consumes b s (s\<lparr>lastPrice := p\<rparr>)"
  by (simp add: consumes_def nexts_def limitsOf_def ahead_refl)

lemma sweep_limits_consumes: "consumes b s (snd (sweep_limits b q s))"
proof (induction b q s rule: sweep_limits.induct)
  case (1 b q s)
  show ?case
  proof (cases "limitsOf b s")
    case Nil
    then show ?thesis by (subst sweep_limits.simps) (simp add: consumes_refl)
  next
    case (Cons l ls)
    show ?thesis
    proof (cases "q \<ge> Volume (limitAt s l)")
      case False
      with Cons show ?thesis by (subst sweep_limits.simps) (simp add: consumes_refl)
    next
      case True
      show ?thesis
      proof (cases "deleteLimit b 0 (Price (limitAt s l)) (s\<lparr>lastPrice := Price (limitAt s l)\<rparr>)")
        case None
        with Cons True show ?thesis
          by (subst sweep_limits.simps) (simp add: lastPrice_consumes)
      next
        case (Some s2)
        have "consumes b s s2"
          using consumes_trans[OF lastPrice_consumes deleteLimit_consumes[OF Some]] .
        moreover have "consumes b s2 (snd (sweep_limits b (fsub q (Volume (limitAt s l))) s2))"
          using "1.IH"[OF Cons True refl refl Some] .
        ultimately show ?thesis
          using Cons True Some
          by (subst sweep_limits.simps) (auto intro: consumes_trans)
      qed
    qed
  qed
qed

lemma sweep_orders_consumes:
  assumes "sweep_orders b q s = Some (r, s')"
  shows "consumes b s s'"
proof -
  have "consumes b s (snd (r, s'))"
  proof (rule sweep_orders.raw_induct[where P = "\<lambda>b q s y. consumes b s (snd y)", OF _ assms])
    fix f b q s y
    assume IH: "\<And>b q s y. f b q s = Some y \<Longrightarrow> consumes b s (snd y)"
      and eq: "(case limitsOf b s of
                [] \<Rightarrow> Some (Returned q, s)
              | l # _ \<Rightarrow>
                  (case front (limitAt s l) of
                     None \<Rightarrow> Some (Panicked, s)
                   | Some fr \<Rightarrow>
                       if q \<ge> qty (orderAt s fr)
                       then f b (fsub q (qty (orderAt s fr)))
                              (updLimit l (\<lambda>x. x\<lparr>front := nxt (orderAt s fr)\<rparr>)
                                (updLimit l (\<lambda>x. x\<lparr>Volume := fsub (Volume x) (qty (orderAt s fr))\<rparr>)
                                  (s\<lparr>lastPrice := Price (limitAt s l)\<rparr>)))
                       else Some (Returned q, s))) = Some y"
    show "consumes b s (snd y)"
    proof (cases "limitsOf b s")
      case Nil
      with eq show ?thesis by (auto simp: consumes_refl)
    next
      case (Cons l ls)
      show ?thesis
      proof (cases "front (limitAt s l)")
        case None
        with eq Cons show ?thesis by (auto simp: consumes_refl)
      next
        case (Some fr)
        show ?thesis
        proof (cases "q \<ge> qty (orderAt s fr)")
          case False
          with eq Cons Some show ?thesis by (auto simp: consumes_refl)
        next
          case True
          let ?s1 = "updLimit l (\<lambda>x. x\<lparr>front := nxt (orderAt s fr)\<rparr>)
                       (updLimit l (\<lambda>x. x\<lparr>Volume := fsub (Volume x) (qty (orderAt s fr))\<rparr>)
                         (s\<lparr>lastPrice := Price (limitAt s l)\<rparr>))"
          have step: "consumes b s ?s1"
            using Some ahead_step[of "nexts s" fr]
            by (auto simp: consumes_def updLimit_def nexts_def limitsOf_def ahead_refl)
          from eq Cons Some True have "f b (fsub q (qty (orderAt s fr))) ?s1 = Some y"
            by simp
          from IH[OF this] step show ?thesis by (rule consumes_trans[rotated])
        qed
      qed
    qed
  qed
  then show ?thesis by simp
qed

lemma fill_partial_consumes: "consumes b s (snd (fill_partial b q s))"
  by (auto simp: fill_partial_def consumes_def updLimit_def updOrder_def nexts_def limitsOf_def
        ahead_refl Let_def split: list.splits option.splits)

lemma PlaceMarketOrder_consumes:
  assumes "PlaceMarketOrder buyOrder q s = Some (r, s')"
  shows "consumes (\<not> buyOrder) s s'"
proof (cases "q \<le> 0 \<or> q \<ge> getTotalVolume (\<not> buyOrder) s")
  case True
  with assms show ?thesis by (auto simp: PlaceMarketOrder_def consumes_refl split: if_splits)
next
  case False
  obtain r1 s1 where sl: "sweep_limits (\<not> buyOrder) q s = (r1, s1)" by force
  have c1: "consumes (\<not> buyOrder) s s1"
    using sweep_limits_consumes[of "\<not> buyOrder" s q] sl by simp
  show ?thesis
  proof (cases r1)
    case Panicked
    with assms False sl c1 show ?thesis by (auto simp: PlaceMarketOrder_def)
  next
    case (Returned q1)
    with assms False sl obtain r2 s2 where so: "sweep_orders (\<not> buyOrder) q1 s1 = Some (r2, s2)"
      by (auto simp: PlaceMarketOrder_def split: option.splits)
    have c2: "consumes (\<not> buyOrder) s s2"
      using consumes_trans[OF c1 sweep_orders_consumes[OF so]] .
    show ?thesis
    proof (cases r2)
      case Panicked
      with assms False sl Returned so c2 show ?thesis by (auto simp: PlaceMarketOrder_def)
    next
      case (Returned q2)
      obtain r3 s3 where fp: "fill_partial (\<not> buyOrder) q2 s2 = (r3, s3)" by force
      have "consumes (\<not> buyOrder) s2 s3"
        using fill_partial_consumes[of "\<not> buyOrder" s2 q2] fp by simp
      with c2 have "consumes (\<not> buyOrder) s s3" by (rule consumes_trans)
      moreover from assms False sl \<open>r1 = Returned q1\<close> so Returned fp have "s' = s3"
        by (auto simp: PlaceMarketOrder_def split: outcome.splits)
      ultimately show ?thesis by simp
    qed
  qed
qed


text \<open>
  An order rests on a side when it is in the queue of one of the side's limits.
\<close>

definition resting :: "bool \<Rightarrow> OrderBook \<Rightarrow> addr \<Rightarrow> bool" where
  "resting b s a \<longleftrightarrow>
     (\<exists>l \<in> set (limitsOf b s).
        case queue_from (front (limitAt s l)) s of Some as \<Rightarrow> a \<in> set as | None \<Rightarrow> False)"

lemma later_order_outlives:
  assumes pmo: "PlaceMarketOrder buyOrder q s = Some (r, s')"
    and q: "queue_from (front (limitAt s l)) s = Some (xs @ a # ys @ b # zs)"
    and ra: "resting (\<not> buyOrder) s' a"
  shows "resting (\<not> buyOrder) s' b"
proof -
  from PlaceMarketOrder_consumes[OF pmo]
  have nx: "nexts s' = nexts s"
    and ah: "\<And>l. ahead (nexts s) (front (limitAt s l)) (front (limitAt s' l))"
    by (auto simp: consumes_def)
  from ra obtain l' as' where l': "l' \<in> set (limitsOf (\<not> buyOrder) s')"
    and q': "queue_from (front (limitAt s' l')) s' = Some as'" and a: "a \<in> set as'"
    by (auto simp: resting_def split: option.splits)
  from queue_from_chain[OF q'] nx have "chain (nexts s) (front (limitAt s' l')) as'"
    by simp
  with ah[of l'] obtain pre where "chain (nexts s) (front (limitAt s l')) (pre @ as')"
    by (auto simp: ahead_def)
  moreover from a obtain u v where as': "as' = u @ a # v"
    by (auto simp: in_set_conv_decomp)
  ultimately have "chain (nexts s) (front (limitAt s l')) ((pre @ u) @ a # v)"
    by simp
  then have 1: "chain (nexts s) (Some a) (a # v)"
    by (rule chain_suffix)
  from queue_from_chain[OF q] have 2: "chain (nexts s) (Some a) (a # ys @ b # zs)"
    by (rule chain_suffix)
  from chain_unique[OF 1 2] as' have "b \<in> set as'"
    by simp
  with l' q' show ?thesis
    unfolding resting_def by (intro bexI[of _ l']) simp_all
qed

section \<open>Identifiers of rejected orders\<close>

text \<open>
  An order is \<open>pointed\<close> when some pointer of the heap leads to it: the \<^verbatim>\<open>front\<close> or \<^verbatim>\<open>rear\<close>
  of a limit, or the \<^verbatim>\<open>next\<close> of an order.  \<open>frame N s s'\<close>: from \<open>s\<close> to \<open>s'\<close> no order was
  created, no identifier changed, and only the orders in \<open>N\<close> became pointed.
  \<open>grows s s'\<close>: the orders created between \<open>s\<close> and \<open>s'\<close> carry their own fresh
  identifiers, and only they became pointed.
\<close>

definition pointed :: "OrderBook \<Rightarrow> addr \<Rightarrow> bool" where
  "pointed s y \<longleftrightarrow>
     (\<exists>l. front (limitAt s l) = Some y \<or> rear (limitAt s l) = Some y)
     \<or> (\<exists>x. nxt (orderAt s x) = Some y)"

definition frame :: "addr set \<Rightarrow> OrderBook \<Rightarrow> OrderBook \<Rightarrow> bool" where
  "frame N s s' \<longleftrightarrow>
     nextOrder s' = nextOrder s
     \<and> (\<forall>a. uid (orderAt s' a) = uid (orderAt s a))
     \<and> (\<forall>y. pointed s' y \<longrightarrow> pointed s y \<or> y \<in> N)"

definition grows :: "OrderBook \<Rightarrow> OrderBook \<Rightarrow> bool" where
  "grows s s' \<longleftrightarrow>
     nextOrder s \<le> nextOrder s'
     \<and> (\<forall>a. uid (orderAt s' a) =
               (if nextOrder s \<le> a \<and> a < nextOrder s' then a else uid (orderAt s a)))
     \<and> (\<forall>y. pointed s' y \<longrightarrow> pointed s y \<or> (nextOrder s \<le> y \<and> y < nextOrder s'))"

lemma frame_refl: "frame {} s s"
  by (simp add: frame_def)

lemma frame_trans: "frame N s s' \<Longrightarrow> frame M s' s'' \<Longrightarrow> frame (N \<union> M) s s''"
  unfolding frame_def by auto

lemma frame_trans0: "frame {} s s' \<Longrightarrow> frame {} s' s'' \<Longrightarrow> frame {} s s''"
  using frame_trans[of "{}" s s' "{}" s''] by simp

lemma frame_heap:
  "orderAt s' = orderAt s \<Longrightarrow> limitAt s' = limitAt s \<Longrightarrow> nextOrder s' = nextOrder s
   \<Longrightarrow> frame {} s s'"
  by (simp add: frame_def pointed_def)

lemma grows_refl: "grows s s"
  by (simp add: grows_def)

lemma grows_trans: "grows s s' \<Longrightarrow> grows s' s'' \<Longrightarrow> grows s s''"
  unfolding grows_def
  apply (intro conjI allI impI)
    apply simp
   apply (metis (no_types, lifting) le_trans less_le_trans not_le)
  apply (metis (no_types, lifting) le_trans less_le_trans not_le)
  done

lemma frame_grows: "frame {} s s' \<Longrightarrow> grows s s'"
  by (auto simp: frame_def grows_def)

lemma newOrder_frame_grows:
  assumes "frame N (snd (newOrder q s)) s'" and "N \<subseteq> {nextOrder s}"
  shows "grows s s'"
  using assms
  by (auto simp: frame_def grows_def newOrder_def pointed_def split: if_splits)


lemma addOrder_frame: "frame {o'} s (addOrder l o' s)"
  by (auto simp: frame_def addOrder_def updLimit_def updOrder_def pointed_def Let_def
        split: option.splits if_splits)

lemma newLimit_frame: "frame {} s (snd (newLimit p s))"
  by (auto simp: frame_def newLimit_def pointed_def split: if_splits)

lemma addLimit_heap:
  "orderAt (addLimit b l s) = orderAt s" "limitAt (addLimit b l s) = limitAt s"
  "nextOrder (addLimit b l s) = nextOrder s"
  by (simp_all add: addLimit_def Let_def setLimits_def setMap_def)

lemma addLimit_frame: "frame {} s (addLimit b l s)"
  by (simp add: frame_heap addLimit_heap)

lemma deleteLimit_frame: "deleteLimit b pos p s = Some s' \<Longrightarrow> frame {} s s'"
  by (simp add: frame_heap deleteLimit_heap)

lemma lastPrice_frame: "frame {} s (s\<lparr>lastPrice := p\<rparr>)"
  by (simp add: frame_heap)

lemma deleteOrder_scan_frame:
  assumes "deleteOrder_scan l i temp s = Some (e, s')"
  shows "frame {} s s'"
proof -
  have "frame {} s (snd (e, s'))"
    by (rule deleteOrder_scan.raw_induct[where P = "\<lambda>l i temp s y. frame {} s (snd y)", OF _ assms])
       (auto simp: frame_def updLimit_def updOrder_def pointed_def
          split: option.splits if_splits)
  then show ?thesis by simp
qed

lemma deleteOrder_frame:
  assumes "deleteOrder lp i s = Some (r, s')"
  shows "frame {} s s'"
proof (cases lp)
  case None
  with assms show ?thesis by (simp add: deleteOrder_def frame_refl)
next
  case (Some l)
  show ?thesis
  proof (cases "front (limitAt s l)")
    case None
    with assms Some show ?thesis by (simp add: deleteOrder_def frame_refl)
  next
    case (Some f)
    show ?thesis
    proof (cases "uid (orderAt s f) = i")
      case True
      with assms \<open>lp = Some l\<close> Some show ?thesis
        by (auto simp: deleteOrder_def frame_def updLimit_def pointed_def split: if_splits)
    next
      case False
      with assms \<open>lp = Some l\<close> Some obtain e where "deleteOrder_scan l i f s = Some (e, s')"
        by (auto simp: deleteOrder_def)
      then show ?thesis by (rule deleteOrder_scan_frame)
    qed
  qed
qed

lemma range_delete_frame: "frame {} s (snd (range_delete b P is arr s))"
proof (induction "is" arbitrary: arr s)
  case Nil
  show ?case by (simp add: frame_refl)
next
  case (Cons i "is")
  show ?case
  proof (cases "Price (limitAt s (arr ! i)) = P")
    case False
    with Cons show ?thesis by simp
  next
    case True
    show ?thesis
    proof (cases "deleteLimit b i P s")
      case None
      with True show ?thesis by (simp add: frame_refl)
    next
      case (Some s1)
      from frame_trans0[OF deleteLimit_frame[OF Some] Cons.IH] True Some
      show ?thesis by simp
    qed
  qed
qed

lemma CancelLimitOrder_frame:
  assumes "CancelLimitOrder i P s = Some (r, s')"
  shows "frame {} s s'"
proof (cases "getMidPrice s")
  case (Inl err)
  with assms show ?thesis by (simp add: CancelLimitOrder_def frame_refl)
next
  case (Inr midPrice)
  let ?b = "P < midPrice"
  from assms Inr obtain r1 s1 where d: "deleteOrder (mapOf ?b s P) i s = Some (r1, s1)"
    by (auto simp: CancelLimitOrder_def Let_def split: option.splits)
  have f1: "frame {} s s1" using d by (rule deleteOrder_frame)
  have f2: "frame {} s1 (snd (range_delete ?b P [0 ..< length (limitsOf ?b s1)] (limitsOf ?b s1) s1))"
    by (rule range_delete_frame)
  from assms Inr d have "s' = s1 \<or>
      s' = snd (range_delete ?b P [0 ..< length (limitsOf ?b s1)] (limitsOf ?b s1) s1)"
    by (auto simp: CancelLimitOrder_def Let_def
          split: option.splits outcome.splits if_splits prod.splits)
  with f1 f2 show ?thesis by (auto intro: frame_trans0)
qed


lemma sweep_limits_frame: "frame {} s (snd (sweep_limits b q s))"
proof (induction b q s rule: sweep_limits.induct)
  case (1 b q s)
  show ?case
  proof (cases "limitsOf b s")
    case Nil
    then show ?thesis by (subst sweep_limits.simps) (simp add: frame_refl)
  next
    case (Cons l ls)
    show ?thesis
    proof (cases "q \<ge> Volume (limitAt s l)")
      case False
      with Cons show ?thesis by (subst sweep_limits.simps) (simp add: frame_refl)
    next
      case True
      show ?thesis
      proof (cases "deleteLimit b 0 (Price (limitAt s l)) (s\<lparr>lastPrice := Price (limitAt s l)\<rparr>)")
        case None
        with Cons True show ?thesis
          by (subst sweep_limits.simps) (simp add: lastPrice_frame)
      next
        case (Some s2)
        have "frame {} s s2"
          using frame_trans0[OF lastPrice_frame deleteLimit_frame[OF Some]] .
        moreover have "frame {} s2 (snd (sweep_limits b (fsub q (Volume (limitAt s l))) s2))"
          using "1.IH"[OF Cons True refl refl Some] .
        ultimately show ?thesis
          using Cons True Some
          by (subst sweep_limits.simps) (auto intro: frame_trans0)
      qed
    qed
  qed
qed

lemma sweep_orders_frame:
  assumes "sweep_orders b q s = Some (r, s')"
  shows "frame {} s s'"
proof -
  have "frame {} s (snd (r, s'))"
  proof (rule sweep_orders.raw_induct[where P = "\<lambda>b q s y. frame {} s (snd y)", OF _ assms])
    fix f b q s y
    assume IH: "\<And>b q s y. f b q s = Some y \<Longrightarrow> frame {} s (snd y)"
      and eq: "(case limitsOf b s of
                [] \<Rightarrow> Some (Returned q, s)
              | l # _ \<Rightarrow>
                  (case front (limitAt s l) of
                     None \<Rightarrow> Some (Panicked, s)
                   | Some fr \<Rightarrow>
                       if q \<ge> qty (orderAt s fr)
                       then f b (fsub q (qty (orderAt s fr)))
                              (updLimit l (\<lambda>x. x\<lparr>front := nxt (orderAt s fr)\<rparr>)
                                (updLimit l (\<lambda>x. x\<lparr>Volume := fsub (Volume x) (qty (orderAt s fr))\<rparr>)
                                  (s\<lparr>lastPrice := Price (limitAt s l)\<rparr>)))
                       else Some (Returned q, s))) = Some y"
    show "frame {} s (snd y)"
    proof (cases "limitsOf b s")
      case Nil
      with eq show ?thesis by (auto simp: frame_refl)
    next
      case (Cons l ls)
      show ?thesis
      proof (cases "front (limitAt s l)")
        case None
        with eq Cons show ?thesis by (auto simp: frame_refl)
      next
        case (Some fr)
        show ?thesis
        proof (cases "q \<ge> qty (orderAt s fr)")
          case False
          with eq Cons Some show ?thesis by (auto simp: frame_refl)
        next
          case True
          let ?s1 = "updLimit l (\<lambda>x. x\<lparr>front := nxt (orderAt s fr)\<rparr>)
                       (updLimit l (\<lambda>x. x\<lparr>Volume := fsub (Volume x) (qty (orderAt s fr))\<rparr>)
                         (s\<lparr>lastPrice := Price (limitAt s l)\<rparr>))"
          have step: "frame {} s ?s1"
            by (auto simp: frame_def updLimit_def pointed_def split: if_splits)
          from eq Cons Some True have "f b (fsub q (qty (orderAt s fr))) ?s1 = Some y"
            by simp
          from step IH[OF this] show ?thesis by (rule frame_trans0)
        qed
      qed
    qed
  qed
  then show ?thesis by simp
qed

lemma fill_partial_frame: "frame {} s (snd (fill_partial b q s))"
  by (auto simp: fill_partial_def frame_def updLimit_def updOrder_def pointed_def Let_def
        split: list.splits option.splits if_splits)

lemma PlaceMarketOrder_frame:
  assumes "PlaceMarketOrder buyOrder q s = Some (r, s')"
  shows "frame {} s s'"
proof (cases "q \<le> 0 \<or> q \<ge> getTotalVolume (\<not> buyOrder) s")
  case True
  with assms show ?thesis by (auto simp: PlaceMarketOrder_def frame_refl split: if_splits)
next
  case False
  obtain r1 s1 where sl: "sweep_limits (\<not> buyOrder) q s = (r1, s1)" by force
  have c1: "frame {} s s1"
    using sweep_limits_frame[of s "\<not> buyOrder" q] sl by simp
  show ?thesis
  proof (cases r1)
    case Panicked
    with assms False sl c1 show ?thesis by (auto simp: PlaceMarketOrder_def)
  next
    case (Returned q1)
    with assms False sl obtain r2 s2 where so: "sweep_orders (\<not> buyOrder) q1 s1 = Some (r2, s2)"
      by (auto simp: PlaceMarketOrder_def split: option.splits)
    have c2: "frame {} s s2"
      using frame_trans0[OF c1 sweep_orders_frame[OF so]] .
    show ?thesis
    proof (cases r2)
      case Panicked
      with assms False sl Returned so c2 show ?thesis by (auto simp: PlaceMarketOrder_def)
    next
      case (Returned q2)
      obtain r3 s3 where fp: "fill_partial (\<not> buyOrder) q2 s2 = (r3, s3)" by force
      have "frame {} s2 s3"
        using fill_partial_frame[of s2 "\<not> buyOrder" q2] fp by simp
      with c2 have "frame {} s s3" by (rule frame_trans0)
      moreover from assms False sl \<open>r1 = Returned q1\<close> so Returned fp have "s' = s3"
        by (auto simp: PlaceMarketOrder_def split: outcome.splits)
      ultimately show ?thesis by simp
    qed
  qed
qed

lemma Reset_frame: "frame {} s (Reset s)"
  by (simp add: frame_heap Reset_def)

lemma Init_grows: "grows s (Init midPrice s)"
proof -
  let ?s1 = "snd (newLimit midPrice s)"
  let ?l = "nextLimit s"
  let ?o = "nextOrder ?s1"
  let ?s2 = "snd (newOrder 0 ?s1)"
  have "frame (({?o} \<union> {}) \<union> {}) ?s2
          (addLimit False ?l (addLimit True ?l (addOrder ?l ?o ?s2)))"
    using frame_trans[OF frame_trans[OF addOrder_frame addLimit_frame] addLimit_frame] .
  then have "grows ?s1 (addLimit False ?l (addLimit True ?l (addOrder ?l ?o ?s2)))"
    by (rule newOrder_frame_grows) simp
  moreover have "Init midPrice s = addLimit False ?l (addLimit True ?l (addOrder ?l ?o ?s2))"
    by (simp add: Init_def newLimit_def newOrder_def Let_def)
  ultimately show ?thesis
    using grows_trans[OF frame_grows[OF newLimit_frame]] by simp
qed


lemma deleteLimit_Some: "pos < length (limitsOf b s) \<Longrightarrow> \<exists>s'. deleteLimit b pos p s = Some s'"
  by (simp add: deleteLimit_def Let_def)

lemma rest_order_frame: "frame {o'} s (rest_order b o' P s)"
proof (cases "mapOf b s P")
  case None
  have "frame (({} \<union> {o'}) \<union> {}) s
          (addLimit b (nextLimit s) (addOrder (nextLimit s) o' (snd (newLimit P s))))"
    using frame_trans[OF frame_trans[OF newLimit_frame addOrder_frame] addLimit_frame] .
  with None show ?thesis by (simp add: rest_order_def newLimit_def Let_def)
next
  case (Some l)
  then show ?thesis by (simp add: rest_order_def addOrder_frame)
qed

lemma cleanup_top_shape: "\<exists>s'. cleanup_top s = (Returned (), s') \<and> frame {} s s'"
proof (cases "canDeleteLimit True s \<and> Volume (limitAt s (BuyLimits s ! 0)) = 0")
  case True
  then have "0 < length (limitsOf True s)"
    by (auto simp: canDeleteLimit_def)
  from deleteLimit_Some[OF this]
  obtain s' where d: "deleteLimit True 0 (Price (limitAt s (BuyLimits s ! 0))) s = Some s'"
    by blast
  with True deleteLimit_frame[OF d] show ?thesis by (simp add: cleanup_top_def)
next
  case c1: False
  show ?thesis
  proof (cases "canDeleteLimit False s \<and> Volume (limitAt s (SellLimits s ! 0)) = 0")
    case True
    then have "0 < length (limitsOf False s)"
      by (auto simp: canDeleteLimit_def)
    from deleteLimit_Some[OF this]
    obtain s' where d: "deleteLimit False 0 (Price (limitAt s (SellLimits s ! 0))) s = Some s'"
      by blast
    with True c1 deleteLimit_frame[OF d] show ?thesis by (auto simp: cleanup_top_def)
  next
    case False
    with c1 show ?thesis by (auto simp: cleanup_top_def frame_refl)
  qed
qed

lemma PlaceLimitOrder_cases [case_names rejected placed]:
  obtains e where
      "PlaceLimitOrder b P q s = (Returned (nextOrder s, Some e), snd (newOrder q s))"
  | s2 where
      "cleanup_top (rest_order b (nextOrder s) P (snd (newOrder q s))) = (Returned (), s2)"
      "PlaceLimitOrder b P q s = (Returned (nextOrder s, None), s2)"
proof -
  let ?o = "nextOrder s"
  let ?s0 = "snd (newOrder q s)"
  have s0: "newOrder q s = (?o, ?s0)" and u: "uid (orderAt ?s0 ?o) = ?o"
    by (simp_all add: newOrder_def)
  show ?thesis
  proof (cases "getMidPrice ?s0")
    case (Inl err)
    then have "PlaceLimitOrder b P q s = (Returned (?o, Some err), ?s0)"
      by (subst PlaceLimitOrder_def, subst s0) (simp add: u)
    then show ?thesis by (rule that(1))
  next
    case (Inr midPrice)
    show ?thesis
    proof (cases "P \<le> 0 \<or> q \<le> 0 \<or> (b \<and> P > midPrice) \<or> (\<not> b \<and> P < midPrice)")
      case True
      let ?e = "if P \<le> 0 then InvalidPrice else if q \<le> 0 then InvalidQuantity else CrossesBook"
      from True Inr have "PlaceLimitOrder b P q s = (Returned (?o, Some ?e), ?s0)"
        by (subst PlaceLimitOrder_def, subst s0) (auto simp: u)
      then show ?thesis by (rule that(1))
    next
      case False
      obtain s2 where c: "cleanup_top (rest_order b ?o P ?s0) = (Returned (), s2)"
        using cleanup_top_shape by blast
      from False Inr c have "PlaceLimitOrder b P q s = (Returned (?o, None), s2)"
        by (subst PlaceLimitOrder_def, subst s0) (simp add: u Let_def)
      with c show ?thesis by (rule that(2))
    qed
  qed
qed

lemma PlaceLimitOrder_shape:
  "\<exists>e N. N \<subseteq> {nextOrder s}
     \<and> fst (PlaceLimitOrder b P q s) = Returned (nextOrder s, e)
     \<and> frame N (snd (newOrder q s)) (snd (PlaceLimitOrder b P q s))
     \<and> (e \<noteq> None \<longrightarrow> snd (PlaceLimitOrder b P q s) = snd (newOrder q s))"
proof (cases b P q s rule: PlaceLimitOrder_cases)
  case (rejected e)
  then show ?thesis
    by (intro exI[of _ "Some e"] exI[of _ "{}"]) (simp add: frame_refl)
next
  case (placed s2)
  have "frame {} (rest_order b (nextOrder s) P (snd (newOrder q s))) s2"
    using cleanup_top_shape[of "rest_order b (nextOrder s) P (snd (newOrder q s))"] placed(1)
    by simp
  from frame_trans[OF rest_order_frame this]
  have "frame {nextOrder s} (snd (newOrder q s)) s2" by simp
  with placed(2) show ?thesis
    by (intro exI[of _ "None"] exI[of _ "{nextOrder s}"]) simp
qed

lemma PlaceLimitOrder_grows: "grows s (snd (PlaceLimitOrder b P q s))"
  using PlaceLimitOrder_shape[of s b P q] newOrder_frame_grows by blast


text \<open>
  \<open>steps s t\<close>: the book gets from \<open>s\<close> to \<open>t\<close> by calls of \<^verbatim>\<open>Init\<close>, \<^verbatim>\<open>Reset\<close>,
  \<^verbatim>\<open>PlaceLimitOrder\<close>, \<^verbatim>\<open>CancelLimitOrder\<close> and \<^verbatim>\<open>PlaceMarketOrder\<close>, in any number and
  order, whatever they return; a call that panics leaves the book as it was at the panic.
\<close>

inductive steps :: "OrderBook \<Rightarrow> OrderBook \<Rightarrow> bool" where
  refl: "steps s s"
| init: "steps s t \<Longrightarrow> steps s (Init midPrice t)"
| reset: "steps s t \<Longrightarrow> steps s (Reset t)"
| limit: "steps s t \<Longrightarrow> steps s (snd (PlaceLimitOrder buyOrder P q t))"
| cancel: "steps s t \<Longrightarrow> CancelLimitOrder i P t = Some (r, t') \<Longrightarrow> steps s t'"
| market: "steps s t \<Longrightarrow> PlaceMarketOrder buyOrder q t = Some (r, t') \<Longrightarrow> steps s t'"

lemma steps_grows: "steps s t \<Longrightarrow> grows s t"
proof (induction rule: steps.induct)
  case (refl s)
  show ?case by (rule grows_refl)
next
  case (init s t midPrice)
  then show ?case by (blast intro: grows_trans Init_grows)
next
  case (reset s t)
  then show ?case by (blast intro: grows_trans frame_grows Reset_frame)
next
  case (limit s t buyOrder P q)
  then show ?case by (blast intro: grows_trans PlaceLimitOrder_grows)
next
  case (cancel s t i P r t')
  then show ?case by (blast intro: grows_trans frame_grows CancelLimitOrder_frame)
next
  case (market s t buyOrder q r t')
  then show ?case by (blast intro: grows_trans frame_grows PlaceMarketOrder_frame)
qed

lemma not_pointed_New: "\<not> pointed New y"
  by (simp add: pointed_def New_def)

lemma grows_New:
  assumes "grows New s"
  shows "a < nextOrder s \<Longrightarrow> uid (orderAt s a) = a" and "pointed s y \<Longrightarrow> y < nextOrder s"
  using assms not_pointed_New by (auto simp: grows_def New_def)

lemma chain_pointed:
  "chain nx p as \<Longrightarrow> a \<in> set as \<Longrightarrow> p = Some a \<or> (\<exists>x. nx x = Some a)"
  by (induction as arbitrary: p) auto

lemma resting_pointed: "resting b s a \<Longrightarrow> pointed s a"
proof -
  assume "resting b s a"
  then obtain l as where "queue_from (front (limitAt s l)) s = Some as" and "a \<in> set as"
    by (auto simp: resting_def split: option.splits)
  with chain_pointed[OF queue_from_chain] have
    "front (limitAt s l) = Some a \<or> (\<exists>x. nexts s x = Some a)" by blast
  then show ?thesis by (auto simp: pointed_def nexts_def)
qed

lemma deleteOrder_scan_found:
  assumes "deleteOrder_scan l i temp s = Some (None, s')"
  shows "\<exists>y. pointed s y \<and> uid (orderAt s y) = i"
proof -
  have "fst (None :: error option, s') = None \<longrightarrow> (\<exists>y. pointed s y \<and> uid (orderAt s y) = i)"
    by (rule deleteOrder_scan.raw_induct[where
          P = "\<lambda>l i temp s r. fst r = None \<longrightarrow> (\<exists>y. pointed s y \<and> uid (orderAt s y) = i)",
          OF _ assms])
       (auto simp: pointed_def split: option.splits if_splits)
  then show ?thesis by simp
qed

lemma deleteOrder_found:
  assumes "deleteOrder lp i s = Some (Returned None, s')"
  shows "\<exists>y. pointed s y \<and> uid (orderAt s y) = i"
proof -
  from assms obtain l f where l: "lp = Some l" and f: "front (limitAt s l) = Some f"
    by (auto simp: deleteOrder_def split: option.splits)
  show ?thesis
  proof (cases "uid (orderAt s f) = i")
    case True
    with f show ?thesis by (auto simp: pointed_def)
  next
    case False
    with assms l f have "deleteOrder_scan l i f s = Some (None, s')"
      by (auto simp: deleteOrder_def)
    then show ?thesis by (rule deleteOrder_scan_found)
  qed
qed

lemma CancelLimitOrder_found:
  assumes "CancelLimitOrder i P s = Some (Returned None, s')"
  shows "\<exists>y. pointed s y \<and> uid (orderAt s y) = i"
proof -
  from assms obtain midPrice where m: "getMidPrice s = Inr midPrice"
    by (cases "getMidPrice s") (auto simp: CancelLimitOrder_def)
  with assms obtain s1 where "deleteOrder (mapOf (P < midPrice) s P) i s = Some (Returned None, s1)"
    by (auto simp: CancelLimitOrder_def Let_def
          split: option.splits outcome.splits prod.splits if_splits)
  then show ?thesis by (rule deleteOrder_found)
qed

section \<open>Queues without cycles\<close>

text \<open>
  Two facts about every book reached from a new one: \<^verbatim>\<open>next\<close> always leads to an order
  created later (\<open>forward\<close>), and every pointer leads to an order that exists (\<open>bounded\<close>).
  An order is linked only once, when it is new, behind an order that already exists;
  \<^verbatim>\<open>deleteOrder\<close> only skips an order.  So the queues have no cycle, and the loops that
  walk them end.
\<close>

definition forward :: "OrderBook \<Rightarrow> bool" where
  "forward s \<longleftrightarrow> (\<forall>a b. nexts s a = Some b \<longrightarrow> a < b)"

definition bounded :: "OrderBook \<Rightarrow> bool" where
  "bounded s \<longleftrightarrow> (\<forall>y. pointed s y \<longrightarrow> y < nextOrder s)"

lemma frame_bounded: "frame {} s s' \<Longrightarrow> bounded s \<Longrightarrow> bounded s'"
  by (auto simp: frame_def bounded_def)

lemma grows_bounded: "grows s s' \<Longrightarrow> bounded s \<Longrightarrow> bounded s'"
  by (fastforce simp: grows_def bounded_def)

lemma forward_nexts: "nexts s' = nexts s \<Longrightarrow> forward s \<Longrightarrow> forward s'"
  by (simp add: forward_def)

lemma newOrder_forward: "forward s \<Longrightarrow> forward (snd (newOrder q s))"
  by (auto simp: forward_def nexts_def newOrder_def split: if_splits)

lemma newLimit_nexts: "nexts (snd (newLimit p s)) = nexts s"
  by (simp add: nexts_def newLimit_def)

lemma addLimit_nexts: "nexts (addLimit b l s) = nexts s"
  by (simp add: nexts_def addLimit_heap)

lemma deleteLimit_nexts: "deleteLimit b pos p s = Some s' \<Longrightarrow> nexts s' = nexts s"
  by (simp add: nexts_def deleteLimit_heap)

lemma addOrder_forward:
  assumes "forward s" and "\<And>r. rear (limitAt s l) = Some r \<Longrightarrow> r < o'"
  shows "forward (addOrder l o' s)"
  using assms
  by (auto simp: forward_def nexts_def addOrder_def updLimit_def updOrder_def Let_def
        split: option.splits if_splits)

lemma splice_forward:
  assumes "forward s" and "nxt (orderAt s temp) = Some n"
  shows "forward (updOrder temp (\<lambda>x. x\<lparr>nxt := nxt (orderAt s n)\<rparr>) (updLimit l f s))"
  unfolding forward_def nexts_def
proof (intro allI impI)
  fix a b
  assume ab: "nxt (orderAt (updOrder temp (\<lambda>x. x\<lparr>nxt := nxt (orderAt s n)\<rparr>) (updLimit l f s)) a) = Some b"
  show "a < b"
  proof (cases "a = temp")
    case True
    with ab have "nxt (orderAt s n) = Some b"
      by (simp add: updOrder_def updLimit_def)
    with assms have "temp < n" "n < b"
      by (auto simp: forward_def nexts_def)
    with True show ?thesis by simp
  next
    case False
    with ab have "nxt (orderAt s a) = Some b"
      by (simp add: updOrder_def updLimit_def)
    with assms(1) show ?thesis by (auto simp: forward_def nexts_def)
  qed
qed

lemma deleteOrder_scan_forward:
  assumes "deleteOrder_scan l i temp s = Some (e, s')" and "forward s"
  shows "forward s'"
proof -
  have "forward s \<longrightarrow> forward (snd (e, s'))"
    by (rule deleteOrder_scan.raw_induct[where P = "\<lambda>l i temp s y. forward s \<longrightarrow> forward (snd y)",
          OF _ assms(1)])
       (auto simp: splice_forward split: option.splits if_splits)
  with assms(2) show ?thesis by simp
qed

lemma deleteOrder_forward:
  assumes "deleteOrder lp i s = Some (r, s')" and "forward s"
  shows "forward s'"
proof (cases lp)
  case None
  with assms show ?thesis by (simp add: deleteOrder_def)
next
  case (Some l)
  show ?thesis
  proof (cases "front (limitAt s l)")
    case None
    with assms Some show ?thesis by (simp add: deleteOrder_def)
  next
    case (Some f)
    show ?thesis
    proof (cases "uid (orderAt s f) = i")
      case True
      with assms \<open>lp = Some l\<close> Some show ?thesis
        by (auto simp: deleteOrder_def forward_def nexts_def updLimit_def)
    next
      case False
      with assms \<open>lp = Some l\<close> Some obtain e where "deleteOrder_scan l i f s = Some (e, s')"
        by (auto simp: deleteOrder_def)
      then show ?thesis using assms(2) by (rule deleteOrder_scan_forward)
    qed
  qed
qed

lemma range_delete_nexts: "nexts (snd (range_delete b P is arr s)) = nexts s"
proof (induction "is" arbitrary: arr s)
  case Nil
  show ?case by simp
next
  case (Cons i "is")
  show ?case
  proof (cases "Price (limitAt s (arr ! i)) = P")
    case False
    with Cons show ?thesis by simp
  next
    case True
    show ?thesis
    proof (cases "deleteLimit b i P s")
      case None
      with True show ?thesis by simp
    next
      case (Some s1)
      with True Cons.IH deleteLimit_nexts[OF Some] show ?thesis by simp
    qed
  qed
qed

lemma CancelLimitOrder_forward:
  assumes "CancelLimitOrder i P s = Some (r, s')" and "forward s"
  shows "forward s'"
proof (cases "getMidPrice s")
  case (Inl err)
  with assms show ?thesis by (simp add: CancelLimitOrder_def)
next
  case (Inr midPrice)
  let ?b = "P < midPrice"
  from assms Inr obtain r1 s1 where d: "deleteOrder (mapOf ?b s P) i s = Some (r1, s1)"
    by (auto simp: CancelLimitOrder_def Let_def split: option.splits)
  have f1: "forward s1" using d assms(2) by (rule deleteOrder_forward)
  from assms Inr d have "s' = s1 \<or>
      s' = snd (range_delete ?b P [0 ..< length (limitsOf ?b s1)] (limitsOf ?b s1) s1)"
    by (auto simp: CancelLimitOrder_def Let_def
          split: option.splits outcome.splits if_splits prod.splits)
  with f1 show ?thesis by (auto intro: forward_nexts range_delete_nexts)
qed

lemma PlaceMarketOrder_forward:
  assumes "PlaceMarketOrder buyOrder q s = Some (r, s')" and "forward s"
  shows "forward s'"
  using PlaceMarketOrder_consumes[OF assms(1)] assms(2)
  by (auto simp: consumes_def intro: forward_nexts)

lemma Reset_nexts: "nexts (Reset s) = nexts s"
  by (simp add: nexts_def Reset_def)

lemma Init_forward: "forward s \<Longrightarrow> forward (Init midPrice s)"
proof -
  assume f: "forward s"
  let ?s1 = "snd (newLimit midPrice s)"
  let ?l = "nextLimit s"
  let ?o = "nextOrder ?s1"
  let ?s2 = "snd (newOrder 0 ?s1)"
  have "forward ?s1" using newLimit_nexts f by (rule forward_nexts)
  then have "forward ?s2" by (rule newOrder_forward)
  moreover have "rear (limitAt ?s2 ?l) = None"
    by (simp add: newOrder_def newLimit_def)
  ultimately have "forward (addOrder ?l ?o ?s2)"
    by (intro addOrder_forward) simp_all
  then have "forward (addLimit False ?l (addLimit True ?l (addOrder ?l ?o ?s2)))"
    by (simp add: forward_def addLimit_nexts)
  moreover have "Init midPrice s = addLimit False ?l (addLimit True ?l (addOrder ?l ?o ?s2))"
    by (simp add: Init_def newLimit_def newOrder_def Let_def)
  ultimately show ?thesis by simp
qed


lemma rest_order_forward:
  assumes "forward s" and "\<And>r. pointed s r \<Longrightarrow> r < o'"
  shows "forward (rest_order b o' P s)"
proof (cases "mapOf b s P")
  case None
  let ?s1 = "snd (newLimit P s)"
  have "forward ?s1" using newLimit_nexts assms(1) by (rule forward_nexts)
  moreover have "rear (limitAt ?s1 (nextLimit s)) = None"
    by (simp add: newLimit_def)
  ultimately have "forward (addOrder (nextLimit s) o' ?s1)"
    by (intro addOrder_forward) simp_all
  then have "forward (addLimit b (nextLimit s) (addOrder (nextLimit s) o' ?s1))"
    by (simp add: forward_def addLimit_nexts)
  with None show ?thesis by (simp add: rest_order_def newLimit_def Let_def)
next
  case (Some l)
  have "forward (addOrder l o' s)"
  proof (rule addOrder_forward[OF assms(1)])
    fix r assume "rear (limitAt s l) = Some r"
    then have "pointed s r" by (auto simp: pointed_def)
    then show "r < o'" by (rule assms(2))
  qed
  with Some show ?thesis by (simp add: rest_order_def)
qed

lemma cleanup_top_nexts: "nexts (snd (cleanup_top s)) = nexts s"
  by (auto simp: cleanup_top_def deleteLimit_nexts split: option.splits)

lemma PlaceLimitOrder_forward:
  assumes "forward s" and "bounded s"
  shows "forward (snd (PlaceLimitOrder b P q s))"
proof -
  let ?o = "nextOrder s"
  let ?s0 = "snd (newOrder q s)"
  have f0: "forward ?s0" using assms(1) by (rule newOrder_forward)
  have p0: "r < ?o" if "pointed ?s0 r" for r
  proof -
    from that have "pointed s r"
      by (auto simp: newOrder_def pointed_def split: if_splits)
    with assms(2) show ?thesis by (simp add: bounded_def)
  qed
  have f1: "forward (snd (cleanup_top (rest_order b ?o P ?s0)))"
    using cleanup_top_nexts rest_order_forward[OF f0 p0] by (rule forward_nexts)
  show ?thesis
  proof (cases b P q s rule: PlaceLimitOrder_cases)
    case (rejected e)
    with f0 show ?thesis by simp
  next
    case (placed s2)
    with f1 show ?thesis by simp
  qed
qed

lemma bounded_New: "bounded New"
  by (simp add: bounded_def not_pointed_New)

lemma forward_New: "forward New"
  by (simp add: forward_def nexts_def New_def)

lemma steps_sound:
  "steps s t \<Longrightarrow> forward s \<Longrightarrow> bounded s \<Longrightarrow> forward t \<and> bounded t"
proof (induction rule: steps.induct)
  case (refl s)
  then show ?case by simp
next
  case (init s t midPrice)
  then show ?case by (auto intro: Init_forward grows_bounded[OF Init_grows])
next
  case (reset s t)
  then show ?case
    by (auto intro: forward_nexts[OF Reset_nexts] frame_bounded[OF Reset_frame])
next
  case (limit s t buyOrder P q)
  then show ?case
    by (auto intro: PlaceLimitOrder_forward grows_bounded[OF PlaceLimitOrder_grows])
next
  case (cancel s t i P r t')
  then show ?case
    by (auto intro: CancelLimitOrder_forward frame_bounded[OF CancelLimitOrder_frame])
next
  case (market s t buyOrder q r t')
  then show ?case
    by (auto intro: PlaceMarketOrder_forward frame_bounded[OF PlaceMarketOrder_frame])
qed

lemma reachable_sound: "steps New s \<Longrightarrow> forward s \<and> bounded s"
  using steps_sound[OF _ forward_New bounded_New] .


lemma deleteOrder_scan_returns:
  assumes "forward s" and "bounded s"
  shows "\<exists>y. deleteOrder_scan l i temp s = Some y"
proof (induction "nextOrder s - temp" arbitrary: temp rule: less_induct)
  case less
  show ?case
  proof (cases "nxt (orderAt s temp)")
    case None
    then show ?thesis by (subst deleteOrder_scan.simps) simp
  next
    case (Some n)
    then have "temp < n" "n < nextOrder s"
      using assms by (auto simp: forward_def nexts_def bounded_def pointed_def)
    then have "nextOrder s - n < nextOrder s - temp" by simp
    from less[OF this] Some show ?thesis
      by (subst deleteOrder_scan.simps) simp
  qed
qed

lemma deleteOrder_returns:
  assumes "forward s" and "bounded s"
  shows "\<exists>y. deleteOrder lp i s = Some y"
  using deleteOrder_scan_returns[OF assms]
  by (auto simp: deleteOrder_def split: option.splits) force

lemma CancelLimitOrder_returns:
  assumes "forward s" and "bounded s"
  shows "\<exists>y. CancelLimitOrder i P s = Some y"
proof (cases "getMidPrice s")
  case (Inl err)
  then show ?thesis by (simp add: CancelLimitOrder_def)
next
  case (Inr midPrice)
  obtain r1 s1 where "deleteOrder (mapOf (P < midPrice) s P) i s = Some (r1, s1)"
    using deleteOrder_returns[OF assms] by fastforce
  with Inr show ?thesis
    by (auto simp: CancelLimitOrder_def Let_def
          split: option.splits outcome.splits prod.splits)
qed

lemma sweep_orders_returns:
  assumes "forward s" and "bounded s"
  shows "\<exists>y. sweep_orders b q s = Some y"
  using assms
proof (induction "case limitsOf b s of [] \<Rightarrow> 0
                  | l # _ \<Rightarrow> (case front (limitAt s l) of None \<Rightarrow> 0
                             | Some f \<Rightarrow> nextOrder s - f)"
        arbitrary: q s rule: less_induct)
  case less
  show ?case
  proof (cases "limitsOf b s")
    case Nil
    then show ?thesis by (subst sweep_orders.simps) simp
  next
    case (Cons l ls)
    show ?thesis
    proof (cases "front (limitAt s l)")
      case None
      with Cons show ?thesis by (subst sweep_orders.simps) simp
    next
      case (Some f)
      show ?thesis
      proof (cases "q \<ge> qty (orderAt s f)")
        case False
        with Cons Some show ?thesis by (subst sweep_orders.simps) simp
      next
        case True
        let ?s1 = "updLimit l (\<lambda>x. x\<lparr>front := nxt (orderAt s f)\<rparr>)
                     (updLimit l (\<lambda>x. x\<lparr>Volume := fsub (Volume x) (qty (orderAt s f))\<rparr>)
                       (s\<lparr>lastPrice := Price (limitAt s l)\<rparr>))"
        have fr: "frame {} s ?s1"
          by (auto simp: frame_def updLimit_def pointed_def split: if_splits)
        have nx: "nexts ?s1 = nexts s"
          by (simp add: nexts_def updLimit_def)
        have f1: "forward ?s1" using nx less.prems(1) by (rule forward_nexts)
        have b1: "bounded ?s1" using fr less.prems(2) by (rule frame_bounded)
        have lim: "limitsOf b ?s1 = l # ls" "nextOrder ?s1 = nextOrder s"
          "front (limitAt ?s1 l) = nxt (orderAt s f)"
          using Cons by (auto simp: limitsOf_def updLimit_def)
        have fb: "f < nextOrder s"
          using Some less.prems(2) by (auto simp: bounded_def pointed_def)
        have "(case limitsOf b ?s1 of [] \<Rightarrow> 0
               | l # _ \<Rightarrow> (case front (limitAt ?s1 l) of None \<Rightarrow> 0
                          | Some f \<Rightarrow> nextOrder ?s1 - f)) < nextOrder s - f"
        proof (cases "nxt (orderAt s f)")
          case None
          with lim fb show ?thesis by simp
        next
          case (Some f')
          then have "f < f'" "f' < nextOrder s"
            using less.prems by (auto simp: forward_def nexts_def bounded_def pointed_def)
          with lim Some show ?thesis by simp
        qed
        then have "\<exists>y. sweep_orders b (fsub q (qty (orderAt s f))) ?s1 = Some y"
          using Cons Some f1 b1 by (intro less.hyps) simp_all
        with Cons Some True show ?thesis
          by (subst sweep_orders.simps) simp
      qed
    qed
  qed
qed

lemma PlaceMarketOrder_returns:
  assumes "forward s" and "bounded s"
  shows "\<exists>r s'. PlaceMarketOrder buyOrder q s = Some (r, s')"
proof -
  obtain r1 s1 where sl: "sweep_limits (\<not> buyOrder) q s = (r1, s1)" by force
  have c1: "frame {} s s1" "consumes (\<not> buyOrder) s s1"
    using sweep_limits_frame[of s "\<not> buyOrder" q]
      sweep_limits_consumes[of "\<not> buyOrder" s q] sl by simp_all
  then have "forward s1" "bounded s1"
    using assms by (auto simp: consumes_def intro: forward_nexts frame_bounded)
  then have "\<exists>y. sweep_orders (\<not> buyOrder) q1 s1 = Some y" for q1
    by (rule sweep_orders_returns)
  then show ?thesis
    using sl
    by (auto simp: PlaceMarketOrder_def split: outcome.splits prod.splits option.splits)
       (metis option.distinct(1))+
qed

section \<open>Levels kept by limit orders and cancels\<close>

text \<open>
  \<^verbatim>\<open>PlaceLimitOrder\<close> and \<^verbatim>\<open>CancelLimitOrder\<close> delete a limit only behind
  \<^verbatim>\<open>canDeleteLimit\<close>: a side that has a level keeps one through either call, whatever its
  arguments and outcome.
\<close>

lemma addOrder_limits: "limitsOf b (addOrder l o' s) = limitsOf b s"
  by (simp add: addOrder_def updLimit_def updOrder_def limitsOf_def Let_def split: option.splits)

lemma addLimit_limits: "limitsOf b s \<noteq> [] \<Longrightarrow> limitsOf b (addLimit b' l s) \<noteq> []"
  by (auto simp: addLimit_def Let_def limitsOf_def setLimits_def setMap_def
        dest!: arg_cong[where f = length] simp: length_sort_Sort)

lemma rest_order_limits: "limitsOf b s \<noteq> [] \<Longrightarrow> limitsOf b (rest_order b' o' P s) \<noteq> []"
proof -
  assume n: "limitsOf b s \<noteq> []"
  have "limitsOf b (snd (newLimit P s)) = limitsOf b s"
    by (simp add: newLimit_def limitsOf_def)
  with n show ?thesis
    by (auto simp: rest_order_def addOrder_limits Let_def newLimit_def
          intro!: addLimit_limits split: option.splits)
qed

lemma deleteLimit_keeps:
  assumes "deleteLimit b' pos p s = Some s'" and "limitsOf b s \<noteq> []"
    and "b = b' \<Longrightarrow> 1 < length (limitsOf b s)"
  shows "limitsOf b s' \<noteq> []"
proof (cases "b = b'")
  case True
  with assms deleteLimit_heap(5)[OF assms(1)] have "length (limitsOf b s') \<noteq> 0" by simp
  then show ?thesis by simp
next
  case False
  with deleteLimit_heap(6)[OF assms(1)] assms(2) show ?thesis by (cases b') auto
qed

lemma cleanup_top_limits: "limitsOf b s \<noteq> [] \<Longrightarrow> limitsOf b (snd (cleanup_top s)) \<noteq> []"
  by (auto simp: cleanup_top_def canDeleteLimit_def split: option.splits
        dest: deleteLimit_keeps[where b = b])

lemma PlaceLimitOrder_keeps_levels:
  assumes "limitsOf b s \<noteq> []"
  shows "limitsOf b (snd (PlaceLimitOrder buyOrder P q s)) \<noteq> []"
proof -
  have 0: "limitsOf b (snd (newOrder q s)) \<noteq> []"
    using assms by (auto simp: newOrder_def limitsOf_def)
  show ?thesis
  proof (cases buyOrder P q s rule: PlaceLimitOrder_cases)
    case (rejected e)
    with 0 show ?thesis by simp
  next
    case (placed s2)
    with cleanup_top_limits[OF rest_order_limits[OF 0], of buyOrder "nextOrder s" P]
    show ?thesis by simp
  qed
qed

lemma range_delete_keeps:
  assumes "limitsOf b s \<noteq> []" and "\<forall>i \<in> set is. 1 \<le> i"
  shows "limitsOf b (snd (range_delete b' P is arr s)) \<noteq> []"
  using assms
proof (induction "is" arbitrary: arr s)
  case Nil
  then show ?case by simp
next
  case (Cons i "is")
  show ?case
  proof (cases "Price (limitAt s (arr ! i)) = P")
    case False
    with Cons show ?thesis by simp
  next
    case True
    show ?thesis
    proof (cases "deleteLimit b' i P s")
      case None
      with True Cons.prems show ?thesis by simp
    next
      case (Some s1)
      then have "i < length (limitsOf b' s)"
        by (auto simp: deleteLimit_def Let_def split: if_splits)
      with Cons.prems have "b = b' \<Longrightarrow> 1 < length (limitsOf b s)" by auto
      from deleteLimit_keeps[OF Some Cons.prems(1) this] have "limitsOf b s1 \<noteq> []" by simp
      with Cons.IH[of s1] Cons.prems(2) True Some show ?thesis by simp
    qed
  qed
qed

lemma deleteOrder_scan_limits:
  assumes "deleteOrder_scan l i temp s = Some (e, s')"
  shows "limitsOf b s' = limitsOf b s"
proof -
  have "limitsOf b (snd (e, s')) = limitsOf b s"
    by (rule deleteOrder_scan.raw_induct[where P = "\<lambda>l i temp s y. limitsOf b (snd y) = limitsOf b s",
          OF _ assms])
       (auto simp: updLimit_def updOrder_def limitsOf_def split: option.splits if_splits)
  then show ?thesis by simp
qed

lemma updLimit_limits: "limitsOf b (updLimit l f s) = limitsOf b s"
  by (simp add: updLimit_def limitsOf_def)

lemma deleteOrder_limits:
  assumes "deleteOrder lp i s = Some (r, s')"
  shows "limitsOf b s' = limitsOf b s"
  using assms
  by (auto simp: deleteOrder_def updLimit_limits split: option.splits if_splits
        dest: deleteOrder_scan_limits[where b = b])

lemma CancelLimitOrder_keeps_levels:
  assumes "CancelLimitOrder i P s = Some (r, s')" and "limitsOf b s \<noteq> []"
  shows "limitsOf b s' \<noteq> []"
proof (cases "getMidPrice s")
  case (Inl err)
  with assms show ?thesis by (simp add: CancelLimitOrder_def)
next
  case (Inr midPrice)
  let ?b = "P < midPrice"
  from assms Inr obtain r1 s1 where d: "deleteOrder (mapOf ?b s P) i s = Some (r1, s1)"
    by (auto simp: CancelLimitOrder_def Let_def split: option.splits)
  have l1: "limitsOf b s1 \<noteq> []"
    using deleteOrder_limits[OF d] assms(2) by simp
  let ?n = "length (limitsOf ?b s1)"
  have rd: "limitsOf b (snd (range_delete ?b P [0 ..< ?n] (limitsOf ?b s1) s1)) \<noteq> []"
    if c: "canDeleteLimit ?b s1"
  proof -
    from c have n: "1 < ?n" by (simp add: canDeleteLimit_def)
    then have up: "[0 ..< ?n] = 0 # [1 ..< ?n]"
      by (subst upt_rec) auto
    show ?thesis
    proof (cases "Price (limitAt s1 (limitsOf ?b s1 ! 0)) = P")
      case False
      with range_delete_keeps[OF l1, of "[1 ..< ?n]" ?b P "limitsOf ?b s1"] up
      show ?thesis by simp
    next
      case True
      from n have "0 < ?n" by linarith
      from deleteLimit_Some[OF this] obtain s2 where d2: "deleteLimit ?b 0 P s1 = Some s2"
        by blast
      from n have "b = ?b \<Longrightarrow> 1 < length (limitsOf b s1)" by simp
      from deleteLimit_keeps[OF d2 l1 this] have "limitsOf b s2 \<noteq> []" by simp
      from range_delete_keeps[OF this, of "[1 ..< ?n]" ?b P] True d2 up
      show ?thesis by simp
    qed
  qed
  from assms Inr d have "s' = s1 \<or>
      (canDeleteLimit ?b s1 \<and>
       s' = snd (range_delete ?b P [0 ..< ?n] (limitsOf ?b s1) s1))"
    by (auto simp: CancelLimitOrder_def Let_def
          split: option.splits outcome.splits if_splits prod.splits)
  with l1 rd show ?thesis by auto
qed

section \<open>Rejected identifiers\<close>

text \<open>
  C10.  \<^verbatim>\<open>PlaceLimitOrder\<close> returns an identifier in every case: the one of the order it
  created first, whatever the checks say (last conjunct, for every input and state).
  In a book reached from a new one, let a placement fail with an error and return \<open>i\<close>.
  Then \<open>i\<close> is fresh, no order created before carries it; and in every state \<open>t\<close> the
  book reaches afterwards, no resting order carries \<open>i\<close>, and every
  \<^verbatim>\<open>CancelLimitOrder\<close> of \<open>i\<close>, at whatever price, returns without having cancelled
  anything.
\<close>

theorem rejected_order_id_is_dead:
  assumes "steps New s"
    and "fst (PlaceLimitOrder buyOrder P q s) = Returned (i, Some e)"
    and "steps (snd (PlaceLimitOrder buyOrder P q s)) t"
  shows "i = nextOrder s
     \<and> (\<forall>a < nextOrder s. uid (orderAt s a) \<noteq> i)
     \<and> (\<forall>side a. resting side t a \<longrightarrow> uid (orderAt t a) \<noteq> i)
     \<and> (\<forall>P'. \<exists>r t'. CancelLimitOrder i P' t = Some (r, t') \<and> r \<noteq> Returned None)
     \<and> (\<forall>b' P' q' s0. \<exists>e'. fst (PlaceLimitOrder b' P' q' s0) = Returned (nextOrder s0, e'))"
proof -
  let ?s' = "snd (PlaceLimitOrder buyOrder P q s)"
  from PlaceLimitOrder_shape[of s buyOrder P q] assms(2)
  have i: "i = nextOrder s" and s': "?s' = snd (newOrder q s)"
    by auto
  have gs: "grows New s" using assms(1) by (rule steps_grows)
  have gt: "grows ?s' t" using assms(3) by (rule steps_grows)
  have gNt: "grows New t"
    using grows_trans[OF grows_trans[OF gs PlaceLimitOrder_grows] gt] .
  have fresh: "\<forall>a < nextOrder s. uid (orderAt s a) \<noteq> i"
    using grows_New(1)[OF gs] i by simp
  have n': "nextOrder ?s' = Suc i"
    by (simp add: s' i newOrder_def)
  have np': "\<not> pointed ?s' i"
  proof
    assume "pointed ?s' i"
    then have "pointed s i"
      by (auto simp: s' newOrder_def pointed_def split: if_splits)
    from grows_New(2)[OF gs this] i show False by simp
  qed
  have np: "\<not> pointed t i"
    using gt np' n' by (auto simp: grows_def)
  have dead: "uid (orderAt t y) \<noteq> i" if "pointed t y" for y
  proof -
    from grows_New(2)[OF gNt that] have "uid (orderAt t y) = y"
      by (rule grows_New(1)[OF gNt])
    with that np show ?thesis by auto
  qed
  have rest: "\<forall>side a. resting side t a \<longrightarrow> uid (orderAt t a) \<noteq> i"
    using dead resting_pointed by blast
  have "steps New ?s'" using assms(1) by (rule steps.limit)
  then have "forward ?s' \<and> bounded ?s'" by (rule reachable_sound)
  with assms(3) have "forward t \<and> bounded t" by (blast dest: steps_sound)
  then have "\<exists>r t'. CancelLimitOrder i P' t = Some (r, t')" for P'
    using CancelLimitOrder_returns by fastforce
  moreover have "r \<noteq> Returned None" if "CancelLimitOrder i P' t = Some (r, t')" for P' r t'
    using that dead CancelLimitOrder_found by blast
  ultimately have canc: "\<forall>P'. \<exists>r t'. CancelLimitOrder i P' t = Some (r, t') \<and> r \<noteq> Returned None"
    by blast
  have ret: "\<forall>b' P' q' s0. \<exists>e'. fst (PlaceLimitOrder b' P' q' s0) = Returned (nextOrder s0, e')"
    using PlaceLimitOrder_shape by blast
  from i fresh rest canc ret show ?thesis by blast
qed

section \<open>Evaluation\<close>

lemmas float_defs = fadd_def fsub_def fdiv_def rnd_def expo_def expo_up.simps expo_down.simps
  pow2_def round_even_def

lemmas book_defs = newOrder_def newLimit_def updLimit_def updOrder_def addOrder_def
  deleteOrder_def limitsOf_def mapOf_def less_limit_def sort_Sort_def setLimits_def
  setMap_def addLimit_def canDeleteLimit_def deleteLimit_def getMidPrice_def
  getTotalVolume_def Init_def Reset_def PlaceLimitOrder_def rest_order_def cleanup_top_def
  CancelLimitOrder_def
  PlaceMarketOrder_def fill_partial_def Let_def New_def sweep_limits.simps
  sweep_orders.simps deleteOrder_scan.simps queue_from.simps getOrders_def levels_def

section \<open>Volume and queue\<close>

text \<open>
  On a new book: Init 100; buy 5 at 99, which is order 1; cancel order 1 at 99.
\<close>

definition after_cancel :: OrderBook where
  "after_cancel =
     snd (the (CancelLimitOrder 1 99 (snd (PlaceLimitOrder True 99 5 (Init 100 New)))))"

text \<open>
  C1.  The cached volume of a level is meant to be the sum of the quantities of the orders
  in its queue.  \<^verbatim>\<open>deleteOrder\<close> never repairs \<^verbatim>\<open>rear\<close>: after the only order of a level is
  cancelled, \<^verbatim>\<open>front\<close> is nil and \<^verbatim>\<open>rear\<close> still points to the cancelled order.  The next
  order placed at that price is linked behind the cancelled one and counted in the volume,
  yet it is not reachable from \<^verbatim>\<open>front\<close>.  On a fresh book: Init 100; buy 5 at 99 (order 1);
  cancel order 1 at 99; buy 4 at 99.  The level at 99 then has volume 4 and an empty queue.
\<close>

theorem volume_without_queue:
  "fst (PlaceLimitOrder True 99 4 after_cancel) = Returned (2, None)
   \<and> levels True (snd (PlaceLimitOrder True 99 4 after_cancel)) = [(99, 4, Some [])]
   \<and> levels True after_cancel = [(99, 0, Some [])]
   \<and> rear (limitAt after_cancel 1) = Some 1"
  by (simp add: after_cancel_def book_defs float_defs)


section \<open>The two sides\<close>

lemma Init_shares_level:
  "BuyLimits (Init midPrice (Reset s)) = [nextLimit s]
   \<and> SellLimits (Init midPrice (Reset s)) = [nextLimit s]"
  by (simp add: book_defs)

text \<open>
  C2.  No level is meant to belong to both sides.  \<^verbatim>\<open>Init\<close> creates one limit and adds that
  same pointer to \<^verbatim>\<open>BuyLimits\<close> and to \<^verbatim>\<open>SellLimits\<close>, although its comment speaks of a buy
  and a sell limit.  A buy at the mid-price right after Init is accepted and lands in the
  shared limit: the ask side's only level goes from volume 0 and queue [0] to volume 5
  and queue [0, 5], and nothing is removed.  The sharing does not depend on the price or
  on what the book held (\<open>Init_shares_level\<close>).
\<close>

theorem init_level_shared_by_both_sides:
  "BuyLimits (Init 100 New) = [0] \<and> SellLimits (Init 100 New) = [0]
   \<and> levels False (Init 100 New) = [(100, 0, Some [0])]
   \<and> fst (PlaceLimitOrder True 100 5 (Init 100 New)) = Returned (1, None)
   \<and> SellLimits (snd (PlaceLimitOrder True 100 5 (Init 100 New))) = [0]
   \<and> levels False (snd (PlaceLimitOrder True 100 5 (Init 100 New))) = [(100, 5, Some [0, 5])]"
  by (simp add: book_defs float_defs)

section \<open>Cancelling what is not there\<close>

lemma cancel_absent_always_panics:
  assumes "getMidPrice s = Inr midPrice"
    and "mapOf (P < midPrice) s P = None
         \<or> (\<exists>l. mapOf (P < midPrice) s P = Some l \<and> front (limitAt s l) = None)"
  shows "CancelLimitOrder i P s = Some (Panicked, s)"
  using assms by (auto simp: CancelLimitOrder_def deleteOrder_def Let_def)

text \<open>
  C4.  A cancel whose price has no level on the derived side, or whose level has an empty
  queue, is meant to return NotFound.  \<^verbatim>\<open>CancelLimitOrder\<close> calls \<^verbatim>\<open>deleteOrder\<close> on whatever
  the map holds, and \<^verbatim>\<open>deleteOrder\<close> reads \<^verbatim>\<open>l.orders.front.id\<close> at once: a nil limit or a
  nil front is a nil dereference.  Right after Init 100, cancelling at price 50 panics; so
  does cancelling again order 1 at 99 once its level is empty (\<open>after_cancel\<close>).  The book
  is left as it was.  It is so in every state where the mid-price is defined
  (\<open>cancel_absent_always_panics\<close>).
\<close>

theorem cancel_absent_panics:
  "CancelLimitOrder 7 50 (Init 100 New) = Some (Panicked, Init 100 New)
   \<and> buyLimitsMap (Init 100 New) 50 = None
   \<and> getMidPrice after_cancel = Inr (199 / 2)
   \<and> levels True after_cancel = [(99, 0, Some [])]
   \<and> CancelLimitOrder 1 99 after_cancel = Some (Panicked, after_cancel)"
  by (simp add: after_cancel_def book_defs float_defs)

section \<open>The scenario of the specification\<close>

text \<open>
  Init 100; buy 5 at 99 (order 1); sell 3 at 101 (order 2); market buy of 2.
\<close>

definition scenario :: OrderBook where
  "scenario =
     snd (the (PlaceMarketOrder True 2
       (snd (PlaceLimitOrder False 101 3
         (snd (PlaceLimitOrder True 99 5 (Init 100 New)))))))"

lemma scenario_levels:
  "fst (PlaceLimitOrder True 99 5 (Init 100 New)) = Returned (1, None)
   \<and> levels True (snd (PlaceLimitOrder True 99 5 (Init 100 New))) = [(99, 5, Some [5])]
   \<and> levels True scenario = [(99, 5, Some [5])]
   \<and> levels False scenario = [(101, 1, Some [1])]
   \<and> lastPrice scenario = 101 \<and> getMidPrice scenario = Inr 100"
  by (simp add: scenario_def book_defs float_defs)

text \<open>
  C7, as stated: after cancelling order 1 at 99 the bid side is the bootstrap level at 100
  alone.  It is not: the bootstrap level left the bid side when the first buy was
  placed (it was the top level, at volume 0, and no longer the only one).
\<close>

theorem cancel_scenario_bid_not_bootstrap:
  "map_option fst (CancelLimitOrder 1 99 scenario) = Some (Returned None)
   \<and> map fst (levels True (snd (the (CancelLimitOrder 1 99 scenario)))) \<noteq> [100]"
  by (simp add: scenario_def book_defs float_defs)

text \<open>
  C7, amended: the cancel succeeds, and afterwards the bid side consists solely of the
  level at 99, at volume 0 and with an empty queue.  It is the only level of its side, so
  \<^verbatim>\<open>canDeleteLimit\<close> keeps it; the ask side and the last price are as before.
\<close>

theorem cancel_scenario_keeps_last_level:
  "map_option fst (CancelLimitOrder 1 99 scenario) = Some (Returned None)
   \<and> levels True (snd (the (CancelLimitOrder 1 99 scenario))) = [(99, 0, Some [])]
   \<and> levels False (snd (the (CancelLimitOrder 1 99 scenario))) = [(101, 1, Some [1])]
   \<and> lastPrice (snd (the (CancelLimitOrder 1 99 scenario))) = 101"
  by (simp add: scenario_def book_defs float_defs)

section \<open>Sides that never empty\<close>

text \<open>
  On a new book: Init 100; sell \<open>3 / 2 ^ 53\<close> at 101; sell \<open>3 / 2\<close> at 102.
\<close>

definition two_asks :: OrderBook where
  "two_asks =
     snd (PlaceLimitOrder False 102 (3 / 2)
       (snd (PlaceLimitOrder False 101 (3 / 2 ^ 53) (Init 100 New))))"

text \<open>
  C8.  Both sides are meant to keep a level for ever; \<^verbatim>\<open>canDeleteLimit\<close> says why.  The
  sweep of \<^verbatim>\<open>PlaceMarketOrder\<close> deletes limits without asking \<^verbatim>\<open>canDeleteLimit\<close>: it relies on
  the quantity being below the total volume, and both are rounded.  With asks of
  \<open>3 / 2 ^ 53\<close> at 101 and \<open>3 / 2\<close> at 102 the total is \<open>3 / 2 + 2 / 2 ^ 52\<close>; a market buy of
  \<open>3 / 2 + 1 / 2 ^ 52\<close> is below it, takes the first limit, is left with exactly \<open>3 / 2\<close>
  after rounding, and takes the second limit too.  The ask side is empty and the mid-price
  is gone.  The two other operations never do this (\<open>PlaceLimitOrder_keeps_levels\<close>,
  \<open>CancelLimitOrder_keeps_levels\<close>).
\<close>

theorem market_order_empties_side:
  "levels False two_asks = [(101, 3 / 2 ^ 53, Some [3 / 2 ^ 53]), (102, 3 / 2, Some [3 / 2])]
   \<and> getTotalVolume False two_asks = 3 / 2 + 2 / 2 ^ 52
   \<and> map_option fst (PlaceMarketOrder True (3 / 2 + 1 / 2 ^ 52) two_asks) = Some (Returned None)
   \<and> SellLimits (snd (the (PlaceMarketOrder True (3 / 2 + 1 / 2 ^ 52) two_asks))) = []
   \<and> getMidPrice (snd (the (PlaceMarketOrder True (3 / 2 + 1 / 2 ^ 52) two_asks))) = Inl NotReady"
  by (simp add: two_asks_def book_defs float_defs)


section \<open>Init and Reset\<close>




section \<open>Limit orders across the mid-price\<close>

text \<open>
  C5, as stated: a buy or a sell priced exactly at the mid-price is rejected, and a
  crossing order fails with CrossesBook or InvalidPrice.  The source compares with \<open>>\<close> and
  \<open><\<close> (its messages say higher and lower than midPrice): right after Init 100 a buy of 5
  at 100 is accepted and rests, and so is a sell at 100.  The quantity is checked before
  the crossing rule: a buy of 0 at 101 fails with InvalidQuantity.
\<close>

theorem limit_at_mid_price_accepted:
  "getMidPrice (Init 100 New) = Inr 100
   \<and> fst (PlaceLimitOrder True 100 5 (Init 100 New)) = Returned (1, None)
   \<and> levels True (Init 100 New) = [(100, 0, Some [0])]
   \<and> levels True (snd (PlaceLimitOrder True 100 5 (Init 100 New))) = [(100, 5, Some [0, 5])]
   \<and> fst (PlaceLimitOrder False 100 5 (Init 100 New)) = Returned (1, None)
   \<and> fst (PlaceLimitOrder True 101 0 (Init 100 New)) = Returned (1, Some InvalidQuantity)"
  by (simp add: book_defs float_defs)

text \<open>
  C5, amended: wherever the mid-price is defined, a buy priced strictly above it or a sell
  priced strictly below it fails: with InvalidPrice if the price is not positive, else
  with InvalidQuantity if the quantity is not positive, else with CrossesBook.  The book
  is untouched: both sides, both indexes, the last price, every limit and every order
  that existed are as before; the only trace is the rejected order itself, created with
  its identifier before the checks and linked nowhere.
\<close>

theorem crossing_limit_order_rejected:
  assumes "getMidPrice s = Inr midPrice"
    and "(buyOrder \<and> P > midPrice) \<or> (\<not> buyOrder \<and> P < midPrice)"
  shows "PlaceLimitOrder buyOrder P q s =
           (Returned (nextOrder s,
              Some (if P \<le> 0 then InvalidPrice
                    else if q \<le> 0 then InvalidQuantity else CrossesBook)),
            s\<lparr>orderAt := (orderAt s)(nextOrder s := \<lparr>uid = nextOrder s, qty = q, nxt = None\<rparr>),
              nextOrder := Suc (nextOrder s)\<rparr>)"
  using assms
  by (auto simp: PlaceLimitOrder_def newOrder_def getMidPrice_def Let_def split: list.splits)

theorem crossing_limit_order_rejected_witness:
  "getMidPrice (Init 100 New) = Inr 100
   \<and> fst (PlaceLimitOrder True 101 5 (Init 100 New)) = Returned (1, Some CrossesBook)
   \<and> levels True (snd (PlaceLimitOrder True 101 5 (Init 100 New))) = levels True (Init 100 New)"
proof -
  have m: "getMidPrice (Init 100 New) = Inr 100"
    by (simp add: book_defs float_defs)
  have c: "(True \<and> (101::real) > 100) \<or> (\<not> True \<and> (101::real) < 100)"
    by simp
  have n: "nextOrder (Init 100 New) = 1"
    by (simp add: book_defs float_defs)
  have l: "levels True (Init 100 New
             \<lparr>orderAt := (orderAt (Init 100 New))(1 := \<lparr>uid = 1, qty = 5, nxt = None\<rparr>),
               nextOrder := Suc 1\<rparr>) = levels True (Init 100 New)"
    by (simp add: book_defs float_defs)
  show ?thesis
    using m l crossing_limit_order_rejected [OF m c, of 5] by (simp add: n)
qed

section \<open>Market orders larger than the book\<close>

text \<open>
  C6, as stated: every quantity at or above the opposing total volume fails with
  InsufficientLiquidity.  The quantity is checked first: right after Init 100 the ask
  side's total volume is 0, and a market buy of 0 fails with InvalidQuantity.
\<close>

theorem market_order_zero_is_invalid_quantity:
  "getTotalVolume False (Init 100 New) = 0
   \<and> PlaceMarketOrder True 0 (Init 100 New) =
       Some (Returned (Some InvalidQuantity), Init 100 New)"
  by (simp add: book_defs float_defs)

text \<open>
  C6, amended: in every book state, a market order whose quantity is at or above the
  opposing side's total volume fails and leaves the whole state as it was; the failure is
  InsufficientLiquidity when the quantity is positive and InvalidQuantity when it is not.
\<close>

theorem market_order_too_large:
  assumes "q \<ge> getTotalVolume (\<not> buyOrder) s"
  shows "PlaceMarketOrder buyOrder q s =
           Some (Returned (Some (if q \<le> 0 then InvalidQuantity else InsufficientLiquidity)), s)"
  using assms by (simp add: PlaceMarketOrder_def)

theorem market_order_too_large_witness:
  "getTotalVolume False (snd (PlaceLimitOrder False 101 5 (Init 100 New))) = 5
   \<and> PlaceMarketOrder True 5 (snd (PlaceLimitOrder False 101 5 (Init 100 New))) =
       Some (Returned (Some InsufficientLiquidity),
             snd (PlaceLimitOrder False 101 5 (Init 100 New)))"
proof -
  have v: "getTotalVolume False (snd (PlaceLimitOrder False 101 5 (Init 100 New))) = 5"
    by (simp add: book_defs float_defs)
  then have h: "(5::real) \<ge> getTotalVolume (\<not> True) (snd (PlaceLimitOrder False 101 5 (Init 100 New)))"
    by simp
  show ?thesis
    using v market_order_too_large [OF h] by simp
qed

section \<open>A level removed before it is filled\<close>

text \<open>
  On a new book: Init 100; sell 1 at 101, which is order 1; sell \<open>1 / 2 ^ 54\<close> at 101, which is
  order 2; sell 10 at 102.
\<close>

definition small_order_behind :: OrderBook where
  "small_order_behind =
     snd (PlaceLimitOrder False 102 10
       (snd (PlaceLimitOrder False 101 (1 / 2 ^ 54)
         (snd (PlaceLimitOrder False 101 1 (Init 100 New))))))"

text \<open>
  C9.  Of two orders resting at one price, a market order that can pay for exactly one is
  meant to consume the earlier one and leave the later one resting.  The first loop of
  \<^verbatim>\<open>PlaceMarketOrder\<close> deletes a whole limit as soon as the quantity reaches its cached
  \<^verbatim>\<open>Volume\<close>, and that volume is a rounded sum: with order 1 of quantity 1 and order 2 of
  quantity \<open>1 / 2 ^ 54\<close> behind it, the volume of the level at 101 is exactly 1.  A market
  buy of 1 pays for order 1 and for nothing more; it is below the total of 11, it reaches
  the cached volume, and the level is deleted with both orders.  Order 2 is gone from the
  book with its quantity untouched.  What does hold in every state is that the later order
  never leaves before the earlier one (\<open>later_order_outlives\<close>).
\<close>

theorem market_order_removes_unfilled_order:
  "levels False small_order_behind = [(101, 1, Some [1, 1 / 2 ^ 54]), (102, 10, Some [10])]
   \<and> queue_from (front (limitAt small_order_behind 1)) small_order_behind = Some [1, 2]
   \<and> getTotalVolume False small_order_behind = 11
   \<and> map_option fst (PlaceMarketOrder True 1 small_order_behind) = Some (Returned None)
   \<and> levels False (snd (the (PlaceMarketOrder True 1 small_order_behind))) = [(102, 10, Some [10])]
   \<and> \<not> resting False (snd (the (PlaceMarketOrder True 1 small_order_behind))) 1
   \<and> \<not> resting False (snd (the (PlaceMarketOrder True 1 small_order_behind))) 2
   \<and> qty (orderAt (snd (the (PlaceMarketOrder True 1 small_order_behind))) 2) = 1 / 2 ^ 54
   \<and> lastPrice (snd (the (PlaceMarketOrder True 1 small_order_behind))) = 101"
  by (simp add: small_order_behind_def resting_def book_defs float_defs)

section \<open>Rejected identifiers: an instance\<close>

theorem rejected_order_id_is_dead_witness:
  "steps New (Init 100 New)
   \<and> fst (PlaceLimitOrder True 101 5 (Init 100 New)) = Returned (1, Some CrossesBook)
   \<and> nextOrder (Init 100 New) = 1
   \<and> resting True
        (snd (PlaceLimitOrder True 99 5 (snd (PlaceLimitOrder True 101 5 (Init 100 New))))) 2
   \<and> uid (orderAt
        (snd (PlaceLimitOrder True 99 5 (snd (PlaceLimitOrder True 101 5 (Init 100 New))))) 2) \<noteq> 1
   \<and> CancelLimitOrder 1 99
        (snd (PlaceLimitOrder True 99 5 (snd (PlaceLimitOrder True 101 5 (Init 100 New))))) =
       Some (Returned (Some NotFound),
        snd (PlaceLimitOrder True 99 5 (snd (PlaceLimitOrder True 101 5 (Init 100 New)))))"
proof -
  let ?s = "Init 100 New"
  let ?t = "snd (PlaceLimitOrder True 99 5 (snd (PlaceLimitOrder True 101 5 ?s)))"
  have h1: "steps New ?s"
    by (rule steps.init[OF steps.refl])
  have h2: "fst (PlaceLimitOrder True 101 5 ?s) = Returned (1, Some CrossesBook)"
    by (simp add: book_defs float_defs)
  have h3: "steps (snd (PlaceLimitOrder True 101 5 ?s)) ?t"
    by (rule steps.limit[OF steps.refl])
  have r: "resting True ?t 2"
    by (simp add: resting_def book_defs float_defs)
  have c: "CancelLimitOrder 1 99 ?t = Some (Returned (Some NotFound), ?t)"
    by (simp add: book_defs float_defs)
  from rejected_order_id_is_dead[OF h1 h2 h3]
  have "1 = nextOrder ?s" and "resting True ?t 2 \<longrightarrow> uid (orderAt ?t 2) \<noteq> 1"
    by blast+
  with h1 h2 r c show ?thesis by simp
qed

end
